theory Spec2Isabelle
  imports Main
begin

section \<open>Strings and the regular expressions of the source\<close>

text \<open>
  A JavaScript string is modelled as a \<open>string\<close>; a \<open>char\<close> is read as the code unit of
  that value (0 to 255). \<open>is_space\<close> is the class \<open>\s\<close> of the regular expressions of the
  source on this range: tab, line feed, vertical tab, form feed, carriage return, space and
  the no-break space. No proof below depends on which characters the class holds besides the
  space itself.
\<close>

definition is_space :: "char \<Rightarrow> bool" where
  "is_space c = (c \<in> set [CHR 0x09, CHR 0x0A, CHR 0x0B, CHR 0x0C, CHR 0x0D, CHR 0x20, CHR 0xA0])"

text \<open>\<^verbatim>\<open>s.replace(/\s+/g, " ")\<close>: every maximal run of whitespace becomes one space.\<close>

function collapse :: "string \<Rightarrow> string" where
  "collapse [] = []"
| "collapse (c # cs) =
     (if is_space c then CHR '' '' # collapse (dropWhile is_space cs) else c # collapse cs)"
  by pat_completeness auto
termination
  by (relation "measure length") (auto simp: length_dropWhile_le less_Suc_eq_le)

text \<open>\<^verbatim>\<open>s.replace(/^\s+/, "")\<close> and \<^verbatim>\<open>s.replace(/\s+$/, "")\<close>.\<close>

definition stripLeading :: "string \<Rightarrow> string" where
  "stripLeading s = dropWhile is_space s"

definition stripTrailing :: "string \<Rightarrow> string" where
  "stripTrailing s = rev (dropWhile is_space (rev s))"

text \<open>\<^verbatim>\<open>s.trim()\<close>.\<close>

definition trim :: "string \<Rightarrow> string" where
  "trim s = stripTrailing (stripLeading s)"

text \<open>
  \<^verbatim>\<open>s[0] === " "\<close> and \<^verbatim>\<open>s[s.length - 1] === " "\<close>: an index out of range reads
  \<open>undefined\<close>, which is not a space.
\<close>

definition firstIsSpace :: "string \<Rightarrow> bool" where
  "firstIsSpace s = (case s of [] \<Rightarrow> False | c # _ \<Rightarrow> c = CHR '' '')"

definition lastIsSpace :: "string \<Rightarrow> bool" where
  "lastIsSpace s = (case rev s of [] \<Rightarrow> False | c # _ \<Rightarrow> c = CHR '' '')"

text \<open>\<^verbatim>\<open>tagName.toLowerCase()\<close>, on the ASCII letters tag names are made of.\<close>

definition toLowerCase_char :: "char \<Rightarrow> char" where
  "toLowerCase_char c =
     (case map_of (zip ''ABCDEFGHIJKLMNOPQRSTUVWXYZ'' ''abcdefghijklmnopqrstuvwxyz'') c of
        Some d \<Rightarrow> d
      | None \<Rightarrow> c)"

definition toLowerCase :: "string \<Rightarrow> string" where
  "toLowerCase s = map toLowerCase_char s"

text \<open>The property of the spec: a string holds no run of two or more whitespace characters.\<close>

fun no_ws_run :: "string \<Rightarrow> bool" where
  "no_ws_run (a # b # cs) = (\<not> (is_space a \<and> is_space b) \<and> no_ws_run (b # cs))"
| "no_ws_run _ = True"

section \<open>Inline units and the inline cleaner\<close>

text \<open>
  An inline unit is \<^verbatim>\<open>{ type: "text", content, styles }\<close>, \<^verbatim>\<open>{ type: "br" }\<close> or
  \<^verbatim>\<open>{ type: "img", src }\<close>. Styles are the strings \<open>bold\<close>, \<open>italic\<close> and \<open>code\<close>, in an
  array. \<open>src\<close> is what \<^verbatim>\<open>getAttribute("src")\<close> returned: \<open>None\<close> is \<open>null\<close>, the attribute
  is absent.
\<close>

datatype inline =
    TextU (content: string) (styles: "string list")
  | BrU
  | ImgU (src: "string option")

text \<open>
  The test of \<open>cleanInlines\<close> on the unit before: \<^verbatim>\<open>prev && (prev.type === "br" ||
  (prev.type === "text" && prev.content[prev.content.length - 1] === " "))\<close>.
\<close>

fun prevHasTrailingSpace :: "inline option \<Rightarrow> bool" where
  "prevHasTrailingSpace None = False"
| "prevHasTrailingSpace (Some BrU) = True"
| "prevHasTrailingSpace (Some (TextU c st)) = lastIsSpace c"
| "prevHasTrailingSpace (Some (ImgU s)) = False"

text \<open>
  What the first loop of \<open>cleanInlines\<close> writes into the content of a text unit:
  \<^verbatim>\<open>inline.content.replace(/\s+/g, " ")\<close>, then \<^verbatim>\<open>substr(1)\<close> when the content starts
  with a space and the unit before passes the test above.
\<close>

definition cleanContent :: "inline option \<Rightarrow> string \<Rightarrow> string" where
  "cleanContent prev c =
     (let c1 = collapse c
      in if firstIsSpace c1 \<and> prevHasTrailingSpace prev then drop 1 c1 else c1)"

text \<open>
  The first loop of \<open>cleanInlines\<close>, \<^verbatim>\<open>inlines.reduce(function(m, inline, i) {...}, [])\<close>.
  \<open>m\<close> is the accumulator. \<open>prev\<close> is \<^verbatim>\<open>inlines[i-1]\<close>, \<open>null\<close> at \<open>i = 0\<close>: the unit
  before in the array being read, kept or not, with the content the loop has already written
  into it (the units are objects, updated in place). The units of one array are taken to be
  distinct objects, as \<open>extractInlines\<close> makes them.
\<close>

fun cleanReduce :: "inline list \<Rightarrow> inline option \<Rightarrow> inline list \<Rightarrow> inline list" where
  "cleanReduce m prev [] = m"
| "cleanReduce m prev (TextU c st # rest) =
     (let inline = TextU (cleanContent prev c) st
      in cleanReduce (if content inline \<noteq> [] then m @ [inline] else m) (Some inline) rest)"
| "cleanReduce m prev (inline # rest) = cleanReduce (m @ [inline]) (Some inline) rest"

text \<open>
  The second loop: \<^verbatim>\<open>while (inlines.length && inlines[0].type === "text")\<close>, which strips
  the leading whitespace of the first unit and shifts the unit out when nothing is left.
\<close>

fun trimLeading :: "inline list \<Rightarrow> inline list" where
  "trimLeading (TextU c st # rest) =
     (let c' = stripLeading c in if c' \<noteq> [] then TextU c' st # rest else trimLeading rest)"
| "trimLeading inlines = inlines"

text \<open>The third loop, the same from the end of the array with \<open>pop\<close>.\<close>

function trimTrailing :: "inline list \<Rightarrow> inline list" where
  "trimTrailing inlines =
     (if inlines = [] then inlines
      else (case last inlines of
              TextU c st \<Rightarrow>
                (let c' = stripTrailing c
                 in if c' \<noteq> [] then butlast inlines @ [TextU c' st]
                    else trimTrailing (butlast inlines))
            | _ \<Rightarrow> inlines))"
  by pat_completeness auto
termination
  by (relation "measure length") auto

definition cleanInlines :: "inline list \<Rightarrow> inline list" where
  "cleanInlines inlines = trimTrailing (trimLeading (cleanReduce [] None inlines))"

section \<open>The document tree\<close>

text \<open>
  The DOM is outside the repository: the source reads it through \<open>nodeType\<close>, \<open>tagName\<close>,
  \<open>childNodes\<close>, \<open>parentNode\<close>, \<open>getAttribute\<close> and the helpers of \<open>bti-dom-utils\<close>. A node is
  an element (\<open>nodeType\<close> 1) with its tag name as the DOM reports it, its attributes and
  its children, a text node (\<open>nodeType\<close> 3) with its text, or a node of another kind (a
  comment, say) with the text \<open>getTextContent\<close> reports for it.
\<close>

datatype node =
    Element (tagName: string) (attributes: "(string \<times> string) list") (childNodes: "node list")
  | TextNode string
  | OtherNode string

text \<open>
  \<open>parentNode\<close>: a node that the program keeps is kept with the tag names of the elements
  above it, the nearest first. Every ancestor is an element but the document itself, which
  no selector matches.
\<close>

type_synonym dnode = "string list \<times> node"

text \<open>\<^verbatim>\<open>el.getAttribute(name)\<close>: the value, or \<open>null\<close> (\<open>None\<close>) when the attribute is absent.\<close>

definition getAttribute :: "(string \<times> string) list \<Rightarrow> string \<Rightarrow> string option" where
  "getAttribute attrs name = map_of attrs name"

text \<open>
  \<^verbatim>\<open>utils.getTextContent(n)\<close>: the text of the text nodes at and below \<open>n\<close>, in document
  order.
\<close>

fun textContent :: "node \<Rightarrow> string" where
  "textContent (Element t a cs) = concat (map textContent cs)"
| "textContent (TextNode s) = s"
| "textContent (OtherNode s) = []"

definition getTextContent :: "node \<Rightarrow> string" where
  "getTextContent n = (case n of OtherNode s \<Rightarrow> s | _ \<Rightarrow> textContent n)"

text \<open>
  A selector of the source is a list of tag names (\<^verbatim>\<open>"b, strong"\<close> is \<open>[''b'', ''strong'']\<close>).
  \<^verbatim>\<open>utils.matchesSelector(n, sel)\<close> holds for an element whose tag name, in lower case, is
  one of them; \<^verbatim>\<open>n.querySelector(sel)\<close> finds an element below \<open>n\<close> that matches.
\<close>

definition tagMatches :: "string \<Rightarrow> string list \<Rightarrow> bool" where
  "tagMatches t sel = (toLowerCase t \<in> set sel)"

fun matchesSelector :: "node \<Rightarrow> string list \<Rightarrow> bool" where
  "matchesSelector (Element t a cs) sel = tagMatches t sel"
| "matchesSelector _ sel = False"

fun querySelector :: "node \<Rightarrow> string list \<Rightarrow> bool" where
  "querySelector (Element t a cs) sel =
     list_ex (\<lambda>c. matchesSelector c sel \<or> querySelector c sel) cs"
| "querySelector _ sel = False"

section \<open>The tables of the source\<close>

definition block_elements :: "string list" where
  "block_elements = [''article'', ''aside'', ''blockquote'', ''body'', ''button'', ''canvas'',
     ''caption'', ''col'', ''colgroup'', ''dd'', ''div'', ''dl'', ''dt'', ''embed'', ''fieldset'',
     ''figcaption'', ''figure'', ''footer'', ''form'', ''h1'', ''h2'', ''h3'', ''h4'', ''h5'', ''h6'',
     ''header'', ''hgroup'', ''hr'', ''li'', ''map'', ''object'', ''ol'', ''output'', ''p'', ''pre'',
     ''progress'', ''section'', ''table'', ''tbody'', ''textarea'', ''tfoot'', ''th'', ''thead'',
     ''tr'', ''ul'', ''video'']"

definition empty_tags :: "string list" where
  "empty_tags = [''hr'', ''br'', ''img'', ''video'', ''audio'']"

definition markdown_block_tags :: "string list" where
  "markdown_block_tags = [''blockquote'', ''h1'', ''h2'', ''h3'', ''h4'', ''h5'', ''h6'', ''hr'',
     ''li'', ''pre'', ''p'']"

definition markdown_empty_blocks :: "string list" where
  "markdown_empty_blocks = [''hr'']"

definition markdown_inline_tags :: "(string list \<times> string) list" where
  "markdown_inline_tags =
     [([''b'', ''strong''], ''bold''), ([''i'', ''em''], ''italic''), ([''code''], ''code'')]"

definition markdown_syntax :: "(string \<times> string) list" where
  "markdown_syntax =
     [(''hr'', ''- - -''), (''br'', [CHR '' '', CHR '' '', CHR 0x0A]),
      (''h1'', ''# ''), (''h2'', ''## ''), (''h3'', ''### ''), (''h4'', ''#### ''),
      (''h5'', ''##### ''), (''h6'', ''###### ''), (''ul'', ''* ''), (''ol'', ''1. ''),
      (''blockquote'', ''> ''), (''pre'', [CHR '' '', CHR '' '']), (''p'', []),
      (''bold'', ''**''), (''italic'', ''_''), (''code'', ''`'')]"

text \<open>\<^verbatim>\<open>markdown_syntax[key] || ""\<close>: a missing entry and an empty one both give \<open>""\<close>.\<close>

definition syntaxOrEmpty :: "string \<Rightarrow> string" where
  "syntaxOrEmpty key = (case map_of markdown_syntax key of Some v \<Rightarrow> v | None \<Rightarrow> [])"

section \<open>Step 1: blocks\<close>

text \<open>
  A block is \<^verbatim>\<open>{ type, nodes }\<close>; \<open>parse\<close> adds \<open>content\<close> and deletes \<open>nodes\<close>. A field that
  is absent is \<open>None\<close>. Block extraction makes every block with its \<open>nodes\<close> array and never
  deletes it (\<open>extract_fresh\<close> below), so that a push on \<open>nodes\<close> always finds the array.
\<close>

record block =
  type :: string
  nodes :: "dnode list option"
  content :: "inline list option"

text \<open>
  The two variables of \<open>extractBlocks\<close> that its inner functions share. \<open>currentBlock\<close> is a
  reference to a block object: each object is pushed on \<open>blocks\<close> when it is made, and
  \<open>blocks\<close> only ever loses its last element, so the reference is the index the object has
  in \<open>blocks\<close>, and \<^verbatim>\<open>_.last(blocks) === currentBlock\<close> says that this index is the last one.
\<close>

record extractState =
  blocks :: "block list"
  currentBlock :: "nat option"

text \<open>
  \<open>addInline\<close>: \<^verbatim>\<open>currentBlock.nodes.push(el)\<close>, or a new paragraph block that holds \<open>el\<close>.
  The block made when none is open does not become the current block. (The current block
  is a block of \<open>blocks\<close>, the last one, by \<open>extract_current_last\<close> below.)
\<close>

definition addInline :: "dnode \<Rightarrow> extractState \<Rightarrow> extractState" where
  "addInline el st =
     (case currentBlock st of
        Some i \<Rightarrow>
          st\<lparr>blocks := (blocks st)
            [i := (blocks st ! i)\<lparr>nodes := map_option (\<lambda>ns. ns @ [el]) (nodes (blocks st ! i))\<rparr>]\<rparr>
      | None \<Rightarrow> st\<lparr>blocks := blocks st @ [\<lparr>type = ''p'', nodes = Some [el], content = None\<rparr>]\<rparr>)"

text \<open>
  The test before \<^verbatim>\<open>blocks.pop()\<close>: \<^verbatim>\<open>currentBlock != null && !currentBlock.nodes.length &&
  !_.contains(markdown_empty_blocks, currentBlock.type) && _.last(blocks) === currentBlock\<close>.
  The last conjunct puts the index in range.
\<close>

definition currentIsEmptyLast :: "extractState \<Rightarrow> bool" where
  "currentIsEmptyLast st =
     (case currentBlock st of
        None \<Rightarrow> False
      | Some i \<Rightarrow>
          nodes (blocks st ! i) = Some [] \<and>
          type (blocks st ! i) \<notin> set markdown_empty_blocks \<and>
          Suc i = length (blocks st))"

text \<open>
  The two statements of \<open>extract\<close> before it visits the children of a block element:
  \<^verbatim>\<open>if (...) blocks.pop()\<close>, then \<^verbatim>\<open>blocks.push(currentBlock = { type: ..., nodes: [] })\<close>
  with \<^verbatim>\<open>_.contains(markdown_block_tags, tag) ? tag : "p"\<close> as type.
\<close>

definition popEmptyCurrent :: "extractState \<Rightarrow> extractState" where
  "popEmptyCurrent st =
     (if currentIsEmptyLast st then st\<lparr>blocks := butlast (blocks st)\<rparr> else st)"

definition pushBlock :: "string \<Rightarrow> extractState \<Rightarrow> extractState" where
  "pushBlock tag st =
     st\<lparr>blocks := blocks st @
           [\<lparr>type = (if tag \<in> set markdown_block_tags then tag else ''p''),
             nodes = Some [], content = None\<rparr>],
        currentBlock := Some (length (blocks st))\<rparr>"

text \<open>
  \<open>extractEl\<close> is the function \<open>extract\<close> of \<open>extractBlocks\<close>, with the tag names above
  \<open>el\<close> as first argument; \<open>extractChildren\<close> is
  \<^verbatim>\<open>_.each(el.childNodes, function(child) { extract(child); })\<close>. After the children the
  current block is reset to \<open>null\<close>, not to the block that was current before.
\<close>

fun extractEl :: "string list \<Rightarrow> node \<Rightarrow> extractState \<Rightarrow> extractState"
  and extractChildren :: "string list \<Rightarrow> node list \<Rightarrow> extractState \<Rightarrow> extractState" where
  "extractEl anc (Element t a cs) st =
     (let tag = toLowerCase t
      in if tag \<notin> set block_elements then addInline (anc, Element t a cs) st
         else (extractChildren (t # anc) cs (pushBlock tag (popEmptyCurrent st)))
                \<lparr>currentBlock := None\<rparr>)"
| "extractEl anc (TextNode s) st = addInline (anc, TextNode s) st"
| "extractEl anc (OtherNode s) st = addInline (anc, OtherNode s) st"
| "extractChildren anc [] st = st"
| "extractChildren anc (c # cs) st = extractChildren anc cs (extractEl anc c st)"

text \<open>\<open>extractBlocks(doc.body)\<close>; the element above \<open>body\<close> is \<open>html\<close>.\<close>

definition extractBlocks :: "node \<Rightarrow> block list" where
  "extractBlocks root = blocks (extractEl [''HTML''] root \<lparr>blocks = [], currentBlock = None\<rparr>)"

text \<open>The test of \<open>compactBlocks\<close> on one node of a block.\<close>

definition meaningfulNode :: "dnode \<Rightarrow> bool" where
  "meaningfulNode n =
     (trim (getTextContent (snd n)) \<noteq> [] \<or>
      matchesSelector (snd n) empty_tags \<or> querySelector (snd n) empty_tags)"

text \<open>
  \<open>compactBlocks\<close>: \<^verbatim>\<open>blocks.filter(...)\<close>, whose callback deletes the \<open>nodes\<close> of a block of
  an always-kept type. \<^verbatim>\<open>_.some\<close> of an absent list is false.
\<close>

fun compactBlocks :: "block list \<Rightarrow> block list" where
  "compactBlocks [] = []"
| "compactBlocks (b # bs) =
     (let emptyBlock = (type b \<in> set markdown_empty_blocks);
          b' = (if emptyBlock then b\<lparr>nodes := None\<rparr> else b)
      in if emptyBlock \<or> (case nodes b' of None \<Rightarrow> False | Some ns \<Rightarrow> list_ex meaningfulNode ns)
         then b' # compactBlocks bs
         else compactBlocks bs)"

section \<open>Step 2: inline units\<close>

text \<open>
  \<open>closest(el, selector)\<close> from a text node: the node itself is no element, so the search is
  over the elements above it. The result is the tag name of the element found.
\<close>

fun closest :: "string list \<Rightarrow> string list \<Rightarrow> string option" where
  "closest [] sel = None"
| "closest (t # anc) sel = (if tagMatches t sel then Some t else closest anc sel)"

text \<open>
  \<^verbatim>\<open>_.filter(markdown_inline_tags, function(s, sel) { return !!closest(el, sel); })\<close>: the
  style names whose selector matches an element above, in the order of the table.
\<close>

definition computeStyles :: "string list \<Rightarrow> string list" where
  "computeStyles anc = map snd (filter (\<lambda>(sel, s). closest anc sel \<noteq> None) markdown_inline_tags)"

text \<open>
  The text-node case of \<open>extractInlines\<close> on the sequence so far. \<^verbatim>\<open>lastInline.content !=
  null\<close> holds of text units only; \<^verbatim>\<open>_.isEqual\<close> on two arrays of strings is equality of
  lists. The merge writes into the last unit.
\<close>

definition addText :: "string \<Rightarrow> string list \<Rightarrow> inline list \<Rightarrow> inline list" where
  "addText c st inlines =
     (if inlines = [] then [TextU c st]
      else (case last inlines of
              TextU c0 st0 \<Rightarrow>
                (if st0 = st then butlast inlines @ [TextU (c0 @ c) st0]
                 else inlines @ [TextU c st])
            | _ \<Rightarrow> inlines @ [TextU c st]))"

text \<open>
  \<open>extractInlines\<close>. \<open>normalizeXML\<close> stands for \<^verbatim>\<open>Entities.normalizeXML(text, "html")\<close> of the
  package \<open>special-entities\<close>, which is not part of the repository.
\<close>

fun extractInlines :: "(string \<Rightarrow> string) \<Rightarrow> dnode \<Rightarrow> inline list \<Rightarrow> inline list"
  and extractInlinesEach ::
    "(string \<Rightarrow> string) \<Rightarrow> string list \<Rightarrow> node list \<Rightarrow> inline list \<Rightarrow> inline list" where
  "extractInlines normalizeXML (anc, Element t a cs) inlines =
     (let tag = toLowerCase t
      in if tag = ''br'' then inlines @ [BrU]
         else if tag = ''img'' then inlines @ [ImgU (getAttribute a ''src'')]
         else extractInlinesEach normalizeXML (t # anc) cs inlines)"
| "extractInlines normalizeXML (anc, TextNode s) inlines =
     addText (normalizeXML (getTextContent (TextNode s))) (computeStyles anc) inlines"
| "extractInlines normalizeXML (anc, OtherNode s) inlines = inlines"
| "extractInlinesEach normalizeXML anc [] inlines = inlines"
| "extractInlinesEach normalizeXML anc (c # cs) inlines =
     extractInlinesEach normalizeXML anc cs (extractInlines normalizeXML (anc, c) inlines)"

text \<open>\<^verbatim>\<open>b.nodes.reduce(function(m, n) { return extractInlines(n, m); }, [])\<close>.\<close>

definition extractAll :: "(string \<Rightarrow> string) \<Rightarrow> dnode list \<Rightarrow> inline list" where
  "extractAll normalizeXML ns = foldl (\<lambda>m n. extractInlines normalizeXML n m) [] ns"

section \<open>parse\<close>

text \<open>
  \<open>parse\<close> throws \<open>Missing window reference.\<close> itself. A read of a property of \<open>undefined\<close>
  (\<^verbatim>\<open>b.nodes.reduce\<close>, \<^verbatim>\<open>b.content.length\<close>) would be a \<open>TypeError\<close>.
\<close>

datatype error = MissingWindow | TypeError

datatype window = Window

record document =
  body :: node
  parentWindow :: "window option"
  defaultView :: "window option"

text \<open>
  \<^verbatim>\<open>options.window ? options.window : typeof window !== "undefined" ? window :
  doc.parentWindow || doc.defaultView\<close>.
\<close>

definition resolveWindow :: "window option \<Rightarrow> window option \<Rightarrow> document \<Rightarrow> window option" where
  "resolveWindow optionsWindow globalWindow doc =
     (case optionsWindow of
        Some w \<Rightarrow> Some w
      | None \<Rightarrow>
          (case globalWindow of
             Some w \<Rightarrow> Some w
           | None \<Rightarrow> (case parentWindow doc of Some w \<Rightarrow> Some w | None \<Rightarrow> defaultView doc)))"

text \<open>A \<open>forEach\<close> and a \<open>filter\<close> whose callback may throw: the first error ends the loop.\<close>

fun forEachE :: "('a \<Rightarrow> error + 'a) \<Rightarrow> 'a list \<Rightarrow> error + 'a list" where
  "forEachE f [] = Inr []"
| "forEachE f (x # xs) =
     (case f x of
        Inl e \<Rightarrow> Inl e
      | Inr y \<Rightarrow> (case forEachE f xs of Inl e \<Rightarrow> Inl e | Inr ys \<Rightarrow> Inr (y # ys)))"

fun filterE :: "('a \<Rightarrow> error + bool) \<Rightarrow> 'a list \<Rightarrow> error + 'a list" where
  "filterE p [] = Inr []"
| "filterE p (x # xs) =
     (case p x of
        Inl e \<Rightarrow> Inl e
      | Inr keep \<Rightarrow>
          (case filterE p xs of
             Inl e \<Rightarrow> Inl e
           | Inr ys \<Rightarrow> Inr (if keep then x # ys else ys)))"

text \<open>The callback of step 2: a block of an always-kept type gets no \<open>content\<close>.\<close>

definition setContent :: "(string \<Rightarrow> string) \<Rightarrow> block \<Rightarrow> error + block" where
  "setContent normalizeXML b =
     (if type b \<in> set markdown_empty_blocks then Inr b
      else (case nodes b of
              None \<Rightarrow> Inl TypeError
            | Some ns \<Rightarrow> Inr (b\<lparr>content := Some (cleanInlines (extractAll normalizeXML ns))\<rparr>)))"

text \<open>
  The callback of step 3: \<^verbatim>\<open>_.contains(markdown_empty_blocks, b.type) || b.content.length\<close>.
\<close>

definition hasContent :: "block \<Rightarrow> error + bool" where
  "hasContent b =
     (if type b \<in> set markdown_empty_blocks then Inr True
      else (case content b of None \<Rightarrow> Inl TypeError | Some us \<Rightarrow> Inr (us \<noteq> [])))"

definition parse ::
  "(string \<Rightarrow> string) \<Rightarrow> window option \<Rightarrow> window option \<Rightarrow> document \<Rightarrow> error + block list" where
  "parse normalizeXML optionsWindow globalWindow doc =
     (case resolveWindow optionsWindow globalWindow doc of
        None \<Rightarrow> Inl MissingWindow
      | Some win \<Rightarrow>
          (case forEachE (setContent normalizeXML) (compactBlocks (extractBlocks (body doc))) of
             Inl e \<Rightarrow> Inl e
           | Inr bs \<Rightarrow>
               (case filterE hasContent bs of
                  Inl e \<Rightarrow> Inl e
                | Inr bs' \<Rightarrow> Inr (map (\<lambda>b. b\<lparr>nodes := None\<rparr>) bs'))))"

section \<open>toMarkdown\<close>

text \<open>
  The callback of \<open>tree.map\<close> keeps \<open>activeStyles\<close> and \<open>content\<close>; they are the pair that the
  functions below pass on. \<^verbatim>\<open>_.difference(a, b)\<close> and \<^verbatim>\<open>_.without(a, ...b)\<close> keep the
  elements of \<open>a\<close> that are not in \<open>b\<close>.
\<close>

definition difference :: "string list \<Rightarrow> string list \<Rightarrow> string list" where
  "difference a b = filter (\<lambda>x. x \<notin> set b) a"

definition updateStyles :: "string list \<Rightarrow> string list \<times> string \<Rightarrow> string list \<times> string" where
  "updateStyles sts st =
     (let close = difference (fst st) sts;
          activeStyles = difference (fst st) close;
          closed = foldl (\<lambda>c style. c @ syntaxOrEmpty style) (snd st) (rev close)
      in foldl (\<lambda>(a, c) style. (a @ [style], c @ syntaxOrEmpty style)) (activeStyles, closed)
           (difference sts activeStyles))"

text \<open>
  The \<open>switch\<close> on \<open>inline.type\<close>. \<^verbatim>\<open>"![](" + inline.src + ")"\<close> with \<open>src\<close> \<open>null\<close>: the string
  conversion of \<open>null\<close> is \<open>null\<close>.
\<close>

fun renderInline :: "string list \<times> string \<Rightarrow> inline \<Rightarrow> string list \<times> string" where
  "renderInline st (TextU c sts) = (let st' = updateStyles sts st in (fst st', snd st' @ c))"
| "renderInline st BrU = (fst st, snd st @ syntaxOrEmpty ''br'')"
| "renderInline st (ImgU s) =
     (fst st, snd st @ ''![]('' @ (case s of None \<Rightarrow> ''null'' | Some v \<Rightarrow> v) @ '')'')"

definition renderContent :: "block \<Rightarrow> string" where
  "renderContent b =
     (case content b of
        None \<Rightarrow> []
      | Some us \<Rightarrow> snd (updateStyles [] (foldl renderInline ([], []) us)))"

text \<open>
  The \<open>switch\<close> on \<open>block.type\<close> returns for the ten types it lists; for any other type the
  callback returns \<open>undefined\<close> (\<open>None\<close>).
\<close>

definition renderBlock :: "block \<Rightarrow> string option" where
  "renderBlock b =
     (if type b \<in> set [''blockquote'', ''pre'', ''p'', ''hr'', ''h1'', ''h2'', ''h3'', ''h4'', ''h5'', ''h6'']
      then Some (syntaxOrEmpty (type b) @ renderContent b)
      else None)"

text \<open>\<^verbatim>\<open>array.join(sep)\<close>: an \<open>undefined\<close> element is joined as the empty string.\<close>

fun join :: "string \<Rightarrow> string option list \<Rightarrow> string" where
  "join sep [] = []"
| "join sep [x] = (case x of None \<Rightarrow> [] | Some s \<Rightarrow> s)"
| "join sep (x # xs) = (case x of None \<Rightarrow> [] | Some s \<Rightarrow> s) @ sep @ join sep xs"

definition toMarkdown :: "block list \<Rightarrow> string" where
  "toMarkdown tree = join [CHR 0x0A, CHR 0x0A] (map renderBlock tree)"

text \<open>\<open>html2md(doc, options)\<close>, on a document that \<open>toDOM\<close> or the caller has parsed.\<close>

definition html2md ::
  "(string \<Rightarrow> string) \<Rightarrow> window option \<Rightarrow> window option \<Rightarrow> document \<Rightarrow> error + string" where
  "html2md normalizeXML optionsWindow globalWindow doc =
     (case parse normalizeXML optionsWindow globalWindow doc of
        Inl e \<Rightarrow> Inl e
      | Inr tree \<Rightarrow> Inr (toMarkdown tree))"

section \<open>Predicates of the properties\<close>

text \<open>
  A string is whitespace-normal when its only whitespace characters are single spaces; it is
  solid when it holds a character that is not whitespace.
\<close>

definition ws_normal :: "string \<Rightarrow> bool" where
  "ws_normal s = ((\<forall>c\<in>set s. is_space c \<longrightarrow> c = CHR '' '') \<and> no_ws_run s)"

definition solid :: "string \<Rightarrow> bool" where
  "solid s = (\<exists>c\<in>set s. \<not> is_space c)"

fun clean_unit :: "inline \<Rightarrow> bool" where
  "clean_unit (TextU c st) = (c \<noteq> [] \<and> ws_normal c)"
| "clean_unit _ = True"

fun solid_unit :: "inline \<Rightarrow> bool" where
  "solid_unit (TextU c st) = solid c"
| "solid_unit _ = True"

text \<open>
  A sequence that the first loop of \<open>cleanInlines\<close> leaves as it is, read after the unit
  \<open>prev\<close>; and the sequences that the second and the third loop leave as they are.
\<close>

fun stable :: "inline option \<Rightarrow> inline list \<Rightarrow> bool" where
  "stable prev [] = True"
| "stable prev (TextU c st # rest) =
     (c \<noteq> [] \<and> ws_normal c \<and> \<not> (firstIsSpace c \<and> prevHasTrailingSpace prev) \<and>
      stable (Some (TextU c st)) rest)"
| "stable prev (u # rest) = stable (Some u) rest"

fun lead_ok :: "inline list \<Rightarrow> bool" where
  "lead_ok (TextU c st # rest) = (c \<noteq> [] \<and> \<not> is_space (hd c))"
| "lead_ok _ = True"

definition trail_ok :: "inline list \<Rightarrow> bool" where
  "trail_ok us =
     (us = [] \<or> (case last us of TextU c st \<Rightarrow> c \<noteq> [] \<and> \<not> is_space (last c) | _ \<Rightarrow> True))"

text \<open>
  Two units are text units with equal style sets; a sequence has two such units next to each
  other; and what a unit is besides its content.
\<close>

fun sameStyles :: "inline \<Rightarrow> inline \<Rightarrow> bool" where
  "sameStyles (TextU c st) (TextU c' st') = (set st = set st')"
| "sameStyles _ _ = False"

definition adjacentSame :: "inline list \<Rightarrow> bool" where
  "adjacentSame us = list_ex (\<lambda>(u, v). sameStyles u v) (zip us (tl us))"

fun shape :: "inline \<Rightarrow> string list option" where
  "shape (TextU c st) = Some st"
| "shape _ = None"

text \<open>
  A style array that lists its styles in the order of \<open>markdown_inline_tags\<close>, each once, as
  \<open>computeStyles\<close> makes them.
\<close>

definition ordered_styles :: "string list \<Rightarrow> bool" where
  "ordered_styles st = (st = filter (\<lambda>s. s \<in> set st) (map snd markdown_inline_tags))"

fun ordered_unit :: "inline \<Rightarrow> bool" where
  "ordered_unit (TextU c st) = ordered_styles st"
| "ordered_unit _ = True"

text \<open>
  What holds of the sequence \<open>extractInlines\<close> builds; and of a block after block extraction,
  after \<open>compactBlocks\<close> and after step 2 of \<open>parse\<close>.
\<close>

definition extract_inv :: "inline list \<Rightarrow> bool" where
  "extract_inv us = (\<not> adjacentSame us \<and> (\<forall>u\<in>set us. ordered_unit u))"

definition fresh_block :: "block \<Rightarrow> bool" where
  "fresh_block b = (nodes b \<noteq> None \<and> content b = None)"

definition compacted_block :: "block \<Rightarrow> bool" where
  "compacted_block b = ((type b \<in> set markdown_empty_blocks \<or> nodes b \<noteq> None) \<and> content b = None)"

definition filled_block :: "(string \<Rightarrow> string) \<Rightarrow> block \<Rightarrow> bool" where
  "filled_block normalizeXML b =
     (if type b \<in> set markdown_empty_blocks then content b = None
      else (case nodes b of
              None \<Rightarrow> False
            | Some ns \<Rightarrow> content b = Some (cleanInlines (extractAll normalizeXML ns))))"

text \<open>
  States of block extraction: the current block, if there is one, has an index of at least
  \<open>n\<close>, so that the first \<open>n\<close> blocks are out of reach; and the current block, if there is
  one, is the last block.
\<close>

definition above :: "nat \<Rightarrow> extractState \<Rightarrow> bool" where
  "above n st = (n \<le> length (blocks st) \<and> (case currentBlock st of None \<Rightarrow> True | Some i \<Rightarrow> n \<le> i))"

definition current_last :: "extractState \<Rightarrow> bool" where
  "current_last st =
     (case currentBlock st of None \<Rightarrow> True | Some i \<Rightarrow> Suc i = length (blocks st))"

section \<open>Whitespace in strings\<close>

lemma is_space_blank: "is_space (CHR '' '')"
  by (simp add: is_space_def)

lemma no_ws_run_Cons:
  "no_ws_run (a # s) = ((s = [] \<or> \<not> (is_space a \<and> is_space (hd s))) \<and> no_ws_run s)"
  by (cases s) auto

lemma no_ws_run_tail: "no_ws_run (a # s) \<Longrightarrow> no_ws_run s"
  by (simp add: no_ws_run_Cons)

lemma no_ws_run_append_left: "no_ws_run (xs @ ys) \<Longrightarrow> no_ws_run xs"
  by (induction xs rule: no_ws_run.induct) auto

lemma no_ws_run_append_right: "no_ws_run (xs @ ys) \<Longrightarrow> no_ws_run ys"
  by (induction xs) (auto dest: no_ws_run_tail)

lemma stripTrailing_prefix: "stripTrailing s @ rev (takeWhile is_space (rev s)) = s"
  unfolding stripTrailing_def
  by (metis rev_append rev_rev_ident takeWhile_dropWhile_id)

lemma collapse_Nil_iff: "(collapse s = []) = (s = [])"
  by (cases s) auto

lemma hd_collapse_space: "s \<noteq> [] \<Longrightarrow> is_space (hd (collapse s)) = is_space (hd s)"
  by (cases s) (auto simp: is_space_blank)

lemma dropWhile_hd_not: "dropWhile P s \<noteq> [] \<Longrightarrow> \<not> P (hd (dropWhile P s))"
  by (simp add: hd_dropWhile)

lemma no_ws_run_collapse: "no_ws_run (collapse s)"
proof (induction s rule: collapse.induct)
  case 1
  show ?case by simp
next
  case (2 c cs)
  show ?case
  proof (cases "is_space c")
    case True
    let ?r = "dropWhile is_space cs"
    have "no_ws_run (collapse ?r)" using 2 True by simp
    moreover have "collapse ?r \<noteq> [] \<Longrightarrow> \<not> is_space (hd (collapse ?r))"
      using dropWhile_hd_not [of is_space cs] by (simp add: collapse_Nil_iff hd_collapse_space)
    ultimately show ?thesis using True by (auto simp: no_ws_run_Cons)
  next
    case False
    then show ?thesis using 2 by (simp add: no_ws_run_Cons)
  qed
qed

lemma collapse_spaces_blank: "c \<in> set (collapse s) \<Longrightarrow> is_space c \<Longrightarrow> c = CHR '' ''"
  by (induction s rule: collapse.induct) (auto split: if_splits)

lemma ws_normal_collapse: "ws_normal (collapse s)"
  by (auto simp: ws_normal_def no_ws_run_collapse dest: collapse_spaces_blank)

lemma collapse_fixed: "ws_normal s \<Longrightarrow> collapse s = s"
proof (induction s)
  case Nil
  show ?case by simp
next
  case (Cons c cs)
  have n: "ws_normal cs" using Cons.prems by (auto simp: ws_normal_def dest: no_ws_run_tail)
  show ?case
  proof (cases "is_space c")
    case True
    then have b: "c = CHR '' ''" using Cons.prems by (simp add: ws_normal_def)
    have "cs = [] \<or> \<not> is_space (hd cs)"
      using Cons.prems True by (simp add: ws_normal_def no_ws_run_Cons)
    then have "dropWhile is_space cs = cs" by (cases cs) auto
    then show ?thesis using True b Cons.IH [OF n] by simp
  next
    case False
    then show ?thesis using Cons.IH [OF n] by simp
  qed
qed

lemma solid_collapse: "solid (collapse s) = solid s"
proof (induction s rule: collapse.induct)
  case 1
  show ?case by simp
next
  case (2 c cs)
  have d: "solid (dropWhile is_space cs) = solid cs"
    unfolding solid_def by (induction cs) auto
  show ?case using 2 d by (auto simp: solid_def is_space_blank)
qed

lemma ws_normal_append_left: "ws_normal (xs @ ys) \<Longrightarrow> ws_normal xs"
  by (auto simp: ws_normal_def dest: no_ws_run_append_left)

lemma ws_normal_append_right: "ws_normal (xs @ ys) \<Longrightarrow> ws_normal ys"
  by (auto simp: ws_normal_def dest: no_ws_run_append_right)

lemma ws_normal_drop: "ws_normal s \<Longrightarrow> ws_normal (drop n s)"
  by (metis ws_normal_append_right append_take_drop_id)

lemma ws_normal_stripLeading: "ws_normal s \<Longrightarrow> ws_normal (stripLeading s)"
  unfolding stripLeading_def by (metis ws_normal_append_right takeWhile_dropWhile_id)

lemma ws_normal_stripTrailing: "ws_normal s \<Longrightarrow> ws_normal (stripTrailing s)"
  by (metis ws_normal_append_left stripTrailing_prefix)

lemma ws_normal_cleanContent: "ws_normal (cleanContent prev c)"
  by (simp add: cleanContent_def Let_def ws_normal_collapse ws_normal_drop)

section \<open>The three loops of the inline cleaner\<close>

declare trimTrailing.simps [simp del]

declare cleanReduce.simps(2-4) [simp del]

lemma trimTrailing_Nil [simp]: "trimTrailing [] = []"
  by (simp add: trimTrailing.simps)

lemma trimTrailing_snoc_text:
  "trimTrailing (xs @ [TextU c st]) =
     (if stripTrailing c \<noteq> [] then xs @ [TextU (stripTrailing c) st] else trimTrailing xs)"
  by (subst trimTrailing.simps) (simp add: Let_def)

lemma trimTrailing_snoc_br [simp]: "trimTrailing (xs @ [BrU]) = xs @ [BrU]"
  by (subst trimTrailing.simps) simp

lemma trimTrailing_snoc_img [simp]: "trimTrailing (xs @ [ImgU s]) = xs @ [ImgU s]"
  by (subst trimTrailing.simps) simp

lemma cleanReduce_acc: "cleanReduce m prev us = m @ cleanReduce [] prev us"
proof (induction us arbitrary: m prev)
  case Nil
  show ?case by simp
next
  case (Cons u us)
  show ?case
  proof (cases u)
    case (TextU c st)
    let ?i = "TextU (cleanContent prev c) st"
    show ?thesis
    proof (cases "cleanContent prev c = []")
      case True
      then show ?thesis
        using TextU Cons.IH [of m "Some ?i"] by (simp add: Let_def cleanReduce.simps(2-4))
    next
      case False
      then show ?thesis
        using TextU Cons.IH [of "m @ [?i]" "Some ?i"] Cons.IH [of "[?i]" "Some ?i"]
        by (simp add: Let_def cleanReduce.simps(2-4))
    qed
  next
    case BrU
    then show ?thesis
      using Cons.IH [of "m @ [BrU]" "Some BrU"] Cons.IH [of "[BrU]" "Some BrU"]
      by (simp add: cleanReduce.simps(2-4))
  next
    case (ImgU s)
    then show ?thesis
      using Cons.IH [of "m @ [ImgU s]" "Some (ImgU s)"] Cons.IH [of "[ImgU s]" "Some (ImgU s)"]
      by (simp add: cleanReduce.simps(2-4))
  qed
qed

lemma cleanReduce_text:
  "cleanReduce [] prev (TextU c st # rest) =
     (if cleanContent prev c \<noteq> [] then [TextU (cleanContent prev c) st] else []) @
     cleanReduce [] (Some (TextU (cleanContent prev c) st)) rest"
  using cleanReduce_acc
    [of "[TextU (cleanContent prev c) st]" "Some (TextU (cleanContent prev c) st)" rest]
  by (simp add: Let_def cleanReduce.simps(2-4))

lemma cleanReduce_br: "cleanReduce [] prev (BrU # rest) = BrU # cleanReduce [] (Some BrU) rest"
  using cleanReduce_acc [of "[BrU]" "Some BrU" rest] by (simp add: cleanReduce.simps(2-4))

lemma cleanReduce_img:
  "cleanReduce [] prev (ImgU s # rest) = ImgU s # cleanReduce [] (Some (ImgU s)) rest"
  using cleanReduce_acc [of "[ImgU s]" "Some (ImgU s)" rest] by (simp add: cleanReduce.simps(2-4))

lemmas cleanReduce_unfold = cleanReduce_text cleanReduce_br cleanReduce_img

lemma cleanReduce_clean_units: "\<forall>u\<in>set (cleanReduce [] prev us). clean_unit u"
proof (induction us arbitrary: prev)
  case Nil
  show ?case by simp
next
  case (Cons u us)
  show ?case using Cons.IH
    by (cases u) (auto simp: cleanReduce_unfold ws_normal_cleanContent)
qed

lemma trimLeading_clean_units:
  "\<forall>u\<in>set zs. clean_unit u \<Longrightarrow> \<forall>u\<in>set (trimLeading zs). clean_unit u"
  by (induction zs rule: trimLeading.induct) (auto simp: Let_def ws_normal_stripLeading)

lemma trimTrailing_clean_units:
  "\<forall>u\<in>set zs. clean_unit u \<Longrightarrow> \<forall>u\<in>set (trimTrailing zs). clean_unit u"
proof (induction zs rule: rev_induct)
  case Nil
  show ?case by simp
next
  case (snoc u zs)
  then show ?case
    by (cases u) (auto simp: trimTrailing_snoc_text ws_normal_stripTrailing)
qed

lemma cleanInlines_clean_units: "\<forall>u\<in>set (cleanInlines us). clean_unit u"
  unfolding cleanInlines_def
  by (intro trimTrailing_clean_units trimLeading_clean_units cleanReduce_clean_units)

section \<open>Sequences the inline cleaner leaves as they are\<close>

lemma firstIsSpace_iff: "firstIsSpace s = (s \<noteq> [] \<and> hd s = CHR '' '')"
  by (cases s) (auto simp: firstIsSpace_def)


lemma lastIsSpace_iff: "lastIsSpace s = (s \<noteq> [] \<and> last s = CHR '' '')"
  by (cases s rule: rev_cases) (auto simp: lastIsSpace_def)


lemma cleanContent_fixed:
  "ws_normal c \<Longrightarrow> \<not> (firstIsSpace c \<and> prevHasTrailingSpace prev) \<Longrightarrow> cleanContent prev c = c"
  by (auto simp: cleanContent_def collapse_fixed)


lemma stable_fixed: "stable prev us \<Longrightarrow> cleanReduce [] prev us = us"
proof (induction us arbitrary: prev)
  case Nil
  show ?case by simp
next
  case (Cons u us)
  then show ?case
    by (cases u) (auto simp: cleanReduce_unfold cleanContent_fixed)
qed


lemma stable_prev_cong:
  "prevHasTrailingSpace p = prevHasTrailingSpace q \<Longrightarrow> stable p us = stable q us"
proof (cases us)
  case Nil
  then show ?thesis by simp
next
  case (Cons u rest)
  assume "prevHasTrailingSpace p = prevHasTrailingSpace q"
  then show ?thesis using Cons by (cases u) auto
qed

lemma stable_prev_None: "stable p us \<Longrightarrow> stable None us"
proof (cases us)
  case Nil
  then show ?thesis by simp
next
  case (Cons u rest)
  assume "stable p us"
  then show ?thesis using Cons by (cases u) auto
qed

lemma stable_append:
  "stable p (xs @ ys) = (stable p xs \<and> stable (if xs = [] then p else Some (last xs)) ys)"
proof (induction xs arbitrary: p)
  case Nil
  show ?case by simp
next
  case (Cons u xs)
  have "stable (Some u) (xs @ ys) =
     (stable (Some u) xs \<and> stable (if xs = [] then Some u else Some (last xs)) ys)"
    by (rule Cons.IH)
  then show ?case by (cases u) simp_all
qed

lemma ws_normal_second:
  assumes "ws_normal s" and "firstIsSpace s"
  shows "\<not> firstIsSpace (tl s)"
proof -
  obtain t where s: "s = CHR '' '' # t"
    using assms(2) by (cases s) (simp_all add: firstIsSpace_def)
  have "no_ws_run (CHR '' '' # t)" using assms(1) s by (simp add: ws_normal_def)
  then have "t = [] \<or> \<not> is_space (hd t)" by (simp add: no_ws_run_Cons is_space_blank)
  then show ?thesis using s is_space_blank by (auto simp: firstIsSpace_iff)
qed

lemma solid_drop_space: "firstIsSpace s \<Longrightarrow> solid (tl s) = solid s"
  by (cases s) (auto simp: firstIsSpace_def solid_def is_space_blank)

lemma solid_cleanContent: "solid (cleanContent prev c) = solid c"
  by (simp add: cleanContent_def Let_def solid_collapse solid_drop_space drop_Suc)

lemma solid_not_Nil: "solid s \<Longrightarrow> s \<noteq> []"
  by (auto simp: solid_def)

lemma cleanContent_no_double:
  "prevHasTrailingSpace prev \<Longrightarrow> \<not> firstIsSpace (cleanContent prev c)"
  using ws_normal_second [OF ws_normal_collapse, of c]
  by (auto simp: cleanContent_def Let_def drop_Suc)

lemma cleanReduce_stable:
  "\<forall>u\<in>set us. solid_unit u \<Longrightarrow> prevHasTrailingSpace q \<longrightarrow> prevHasTrailingSpace p \<Longrightarrow>
   stable q (cleanReduce [] p us)"
proof (induction us arbitrary: p q)
  case Nil
  show ?case by simp
next
  case (Cons u us)
  show ?case
  proof (cases u)
    case (TextU c st)
    let ?c = "cleanContent p c"
    have s: "solid ?c" using Cons.prems(1) TextU by (simp add: solid_cleanContent)
    have n: "\<not> (firstIsSpace ?c \<and> prevHasTrailingSpace q)"
      using Cons.prems(2) cleanContent_no_double [of p c] by blast
    have r: "stable (Some (TextU ?c st)) (cleanReduce [] (Some (TextU ?c st)) us)"
      using Cons.IH [of "Some (TextU ?c st)" "Some (TextU ?c st)"] Cons.prems(1) by simp
    show ?thesis using TextU s n r solid_not_Nil [OF s]
      by (simp add: cleanReduce_text ws_normal_cleanContent)
  next
    case BrU
    then show ?thesis using Cons.IH [of "Some BrU" "Some BrU"] Cons.prems(1)
      by (simp add: cleanReduce_br)
  next
    case (ImgU s)
    then show ?thesis using Cons.IH [of "Some (ImgU s)" "Some (ImgU s)"] Cons.prems(1)
      by (simp add: cleanReduce_img)
  qed
qed

lemma stripLeading_last:
  "stripLeading c \<noteq> [] \<Longrightarrow> lastIsSpace (stripLeading c) = lastIsSpace c"
  unfolding stripLeading_def lastIsSpace_iff
  by (induction c) (auto split: if_splits)

lemma stripTrailing_hd: "stripTrailing c \<noteq> [] \<Longrightarrow> hd (stripTrailing c) = hd c"
proof -
  assume n: "stripTrailing c \<noteq> []"
  have "hd (stripTrailing c @ rev (takeWhile is_space (rev c))) = hd (stripTrailing c)"
    using n by simp
  then show ?thesis by (simp add: stripTrailing_prefix)
qed

lemma stripTrailing_Nil: "stripTrailing c \<noteq> [] \<Longrightarrow> c \<noteq> []"
  by (auto simp: stripTrailing_def)

lemma stripTrailing_first:
  "stripTrailing c \<noteq> [] \<Longrightarrow> firstIsSpace (stripTrailing c) = firstIsSpace c"
  by (simp add: firstIsSpace_iff stripTrailing_hd stripTrailing_Nil)

lemma stripLeading_hd: "stripLeading c \<noteq> [] \<Longrightarrow> \<not> is_space (hd (stripLeading c))"
  unfolding stripLeading_def by (rule dropWhile_hd_not)

lemma stripTrailing_last: "stripTrailing c \<noteq> [] \<Longrightarrow> \<not> is_space (last (stripTrailing c))"
  unfolding stripTrailing_def
  using dropWhile_hd_not [of is_space "rev c"] by (simp add: last_rev)

lemma stripLeading_fixed: "c \<noteq> [] \<Longrightarrow> \<not> is_space (hd c) \<Longrightarrow> stripLeading c = c"
  by (cases c) (auto simp: stripLeading_def)

lemma stripTrailing_fixed: "c \<noteq> [] \<Longrightarrow> \<not> is_space (last c) \<Longrightarrow> stripTrailing c = c"
  by (cases c rule: rev_cases) (auto simp: stripTrailing_def)

lemma trimTrailing_single:
  "trimTrailing [TextU c st] = (if stripTrailing c \<noteq> [] then [TextU (stripTrailing c) st] else [])"
  using trimTrailing_snoc_text [of "[]" c st] by simp

lemma trimLeading_stable: "stable None zs \<Longrightarrow> stable None (trimLeading zs)"
proof (induction zs rule: trimLeading.induct)
  case (1 c st rest)
  show ?case
  proof (cases "stripLeading c = []")
    case True
    have "stable None rest" using "1.prems" stable_prev_None [of "Some (TextU c st)" rest] by simp
    then show ?thesis using True "1.IH" by simp
  next
    case False
    have "stable (Some (TextU (stripLeading c) st)) rest = stable (Some (TextU c st)) rest"
      by (rule stable_prev_cong) (simp add: stripLeading_last [OF False])
    then show ?thesis using False "1.prems" by (simp add: ws_normal_stripLeading)
  qed
qed simp_all

lemma trimLeading_lead_ok: "lead_ok (trimLeading zs)"
  by (induction zs rule: trimLeading.induct) (auto simp: Let_def stripLeading_hd)

lemma lead_ok_fixed: "lead_ok zs \<Longrightarrow> trimLeading zs = zs"
  by (induction zs rule: trimLeading.induct) (auto simp: Let_def stripLeading_fixed)

lemma trimTrailing_stable: "stable p zs \<Longrightarrow> stable p (trimTrailing zs)"
proof (induction zs rule: rev_induct)
  case Nil
  show ?case by simp
next
  case (snoc u zs)
  show ?case
  proof (cases u)
    case (TextU c st)
    show ?thesis
    proof (cases "stripTrailing c = []")
      case True
      then show ?thesis using TextU snoc by (simp add: trimTrailing_snoc_text stable_append)
    next
      case False
      then show ?thesis using TextU snoc.prems
        by (simp add: trimTrailing_snoc_text stable_append ws_normal_stripTrailing
            stripTrailing_first)
    qed
  next
    case BrU
    then show ?thesis using snoc.prems by simp
  next
    case (ImgU s)
    then show ?thesis using snoc.prems by simp
  qed
qed

lemma lead_ok_snoc: "lead_ok (xs @ [u]) \<Longrightarrow> lead_ok xs"
  by (cases xs rule: lead_ok.cases) auto

lemma trimTrailing_lead_ok: "lead_ok zs \<Longrightarrow> lead_ok (trimTrailing zs)"
proof (induction zs rule: rev_induct)
  case Nil
  show ?case by simp
next
  case (snoc u zs)
  show ?case
  proof (cases u)
    case (TextU c st)
    show ?thesis
    proof (cases "stripTrailing c = []")
      case True
      then show ?thesis using TextU snoc lead_ok_snoc [of zs u]
        by (simp add: trimTrailing_snoc_text)
    next
      case False
      show ?thesis
      proof -
        have t: "trimTrailing (zs @ [u]) = zs @ [TextU (stripTrailing c) st]"
          using TextU False by (simp add: trimTrailing_snoc_text)
        show ?thesis
        proof (cases zs)
          case Nil
          then show ?thesis using t False TextU snoc.prems by (simp add: stripTrailing_hd)
        next
          case (Cons z zs')
          then show ?thesis using t snoc.prems by (cases z) simp_all
        qed
      qed
    qed
  next
    case BrU
    then show ?thesis using snoc.prems by simp
  next
    case (ImgU s)
    then show ?thesis using snoc.prems by simp
  qed
qed

lemma trimTrailing_trail_ok: "trail_ok (trimTrailing zs)"
proof (induction zs rule: rev_induct)
  case Nil
  show ?case by (simp add: trail_ok_def)
next
  case (snoc u zs)
  then show ?case
    by (cases u) (auto simp: trimTrailing_snoc_text trail_ok_def stripTrailing_last)
qed

lemma trail_ok_fixed: "trail_ok zs \<Longrightarrow> trimTrailing zs = zs"
proof (cases zs rule: rev_cases)
  case Nil
  then show ?thesis by simp
next
  case (snoc xs u)
  assume "trail_ok zs"
  then show ?thesis using snoc
    by (cases u) (auto simp: trimTrailing_snoc_text trail_ok_def stripTrailing_fixed)
qed

lemma cleanInlines_fixed:
  "stable None us \<Longrightarrow> lead_ok us \<Longrightarrow> trail_ok us \<Longrightarrow> cleanInlines us = us"
  by (simp add: cleanInlines_def stable_fixed lead_ok_fixed trail_ok_fixed)

lemma cleanInlines_idem_if_stable:
  "stable None (cleanReduce [] None us) \<Longrightarrow> cleanInlines (cleanInlines us) = cleanInlines us"
  unfolding cleanInlines_def [of us]
  by (intro cleanInlines_fixed trimTrailing_stable trimLeading_stable trimTrailing_lead_ok
      trimLeading_lead_ok trimTrailing_trail_ok)

section \<open>The unit after an image\<close>

lemma cleanContent_after_img: "cleanContent (Some (ImgU s)) c = collapse c"
  by (simp add: cleanContent_def)

lemma cleanReduce_append_img:
  "cleanReduce [] p (pre @ ImgU s # rest) =
     cleanReduce [] p pre @ ImgU s # cleanReduce [] (Some (ImgU s)) rest"
proof (induction pre arbitrary: p)
  case Nil
  show ?case by (simp add: cleanReduce_img)
next
  case (Cons u pre)
  show ?case by (cases u) (simp_all add: cleanReduce_unfold Cons.IH)
qed

lemma cleanContent_strip_only:
  "cleanContent prev c \<noteq> collapse c \<Longrightarrow>
     prev = Some BrU \<or> (\<exists>pc ps. prev = Some (TextU pc ps) \<and> lastIsSpace pc)"
  by (cases prev rule: prevHasTrailingSpace.cases) (auto simp: cleanContent_def Let_def split: if_splits)

section \<open>The sequence of inline units of a block\<close>

lemma ordered_styles_computeStyles: "ordered_styles (computeStyles anc)"
  by (simp add: ordered_styles_def computeStyles_def markdown_inline_tags_def)

lemma ordered_styles_set_eq:
  "ordered_styles a \<Longrightarrow> ordered_styles b \<Longrightarrow> set a = set b \<Longrightarrow> a = b"
  by (metis ordered_styles_def)

lemma sameStyles_shape:
  "sameStyles u v = (\<exists>a b. shape u = Some a \<and> shape v = Some b \<and> set a = set b)"
  by (cases u; cases v) auto

lemma adjacentSame_nth:
  "adjacentSame us = (\<exists>i. Suc i < length us \<and> sameStyles (us ! i) (us ! Suc i))"
proof
  assume "adjacentSame us"
  then obtain u v where m: "(u, v) \<in> set (zip us (tl us))" and s: "sameStyles u v"
    by (auto simp: adjacentSame_def list_ex_iff)
  from m obtain i where "i < length us" "i < length (tl us)" "u = us ! i" "v = tl us ! i"
    unfolding in_set_zip by auto
  then show "\<exists>i. Suc i < length us \<and> sameStyles (us ! i) (us ! Suc i)"
    using s by (auto simp: nth_tl intro!: exI [of _ i])
next
  assume "\<exists>i. Suc i < length us \<and> sameStyles (us ! i) (us ! Suc i)"
  then obtain i where i: "Suc i < length us" and s: "sameStyles (us ! i) (us ! Suc i)" by blast
  have "(us ! i, us ! Suc i) \<in> set (zip us (tl us))"
    using i by (auto simp: set_zip nth_tl intro!: exI [of _ i])
  then show "adjacentSame us" using s by (auto simp: adjacentSame_def list_ex_iff)
qed

lemma adjacentSame_shape:
  assumes "map shape xs = map shape ys"
  shows "adjacentSame xs = adjacentSame ys"
proof -
  have l: "length xs = length ys" using assms by (rule map_eq_imp_length_eq)
  have n: "\<And>i. i < length xs \<Longrightarrow> shape (xs ! i) = shape (ys ! i)"
    using assms l by (metis nth_map)
  show ?thesis unfolding adjacentSame_nth sameStyles_shape using l n by auto
qed

lemma adjacentSame_snoc:
  "adjacentSame (xs @ [u]) = (adjacentSame xs \<or> (xs \<noteq> [] \<and> sameStyles (last xs) u))"
proof (cases "xs = []")
  case True
  then show ?thesis by (simp add: adjacentSame_def)
next
  case False
  have "(\<exists>i. Suc i < length (xs @ [u]) \<and> sameStyles ((xs @ [u]) ! i) ((xs @ [u]) ! Suc i)) =
        ((\<exists>i. Suc i < length xs \<and> sameStyles (xs ! i) (xs ! Suc i)) \<or> sameStyles (last xs) u)"
    (is "?L = ?R")
  proof
    assume ?L
    then obtain i where i: "Suc i < Suc (length xs)"
      and s: "sameStyles ((xs @ [u]) ! i) ((xs @ [u]) ! Suc i)" by auto
    show ?R
    proof (cases "Suc i < length xs")
      case True
      then show ?thesis using s by (auto simp: nth_append)
    next
      case False
      then have e: "i = length xs - 1" using i by simp
      have "sameStyles (xs ! (length xs - 1)) u"
        using s \<open>xs \<noteq> []\<close> unfolding e by (simp add: nth_append)
      then show ?thesis using \<open>xs \<noteq> []\<close> by (simp add: last_conv_nth)
    qed
  next
    assume ?R
    then show ?L
    proof
      assume "\<exists>i. Suc i < length xs \<and> sameStyles (xs ! i) (xs ! Suc i)"
      then obtain i where "Suc i < length xs" "sameStyles (xs ! i) (xs ! Suc i)" by blast
      then show ?L by (auto simp: nth_append intro!: exI [of _ i])
    next
      assume s: "sameStyles (last xs) u"
      obtain k where k: "length xs = Suc k" using False by (cases xs) auto
      show ?L using s k False by (auto simp: nth_append last_conv_nth intro!: exI [of _ k])
    qed
  qed
  then show ?thesis using False by (simp add: adjacentSame_nth)
qed

lemma extract_inv_Nil: "extract_inv []"
  by (simp add: extract_inv_def adjacentSame_def)

lemma extract_inv_snoc:
  "extract_inv us \<Longrightarrow> ordered_unit u \<Longrightarrow> (us \<noteq> [] \<Longrightarrow> \<not> sameStyles (last us) u) \<Longrightarrow>
   extract_inv (us @ [u])"
  by (auto simp: extract_inv_def adjacentSame_snoc)

lemma sameStyles_not_text [simp]: "\<not> sameStyles u BrU" "\<not> sameStyles u (ImgU s)"
  by (cases u; simp)+

lemma extract_inv_br: "extract_inv us \<Longrightarrow> extract_inv (us @ [BrU])"
  by (rule extract_inv_snoc) simp_all

lemma extract_inv_img: "extract_inv us \<Longrightarrow> extract_inv (us @ [ImgU s])"
  by (rule extract_inv_snoc) simp_all

lemma extract_inv_addText:
  assumes "extract_inv us"
  shows "extract_inv (addText c (computeStyles anc) us)"
proof (cases "us = []")
  case True
  then show ?thesis
    by (simp add: addText_def extract_inv_def adjacentSame_def ordered_styles_computeStyles)
next
  case False
  let ?new = "TextU c (computeStyles anc)"
  have o: "ordered_unit ?new" by (simp add: ordered_styles_computeStyles)
  show ?thesis
  proof (cases "last us")
    case (TextU c0 st0)
    show ?thesis
    proof (cases "st0 = computeStyles anc")
      case True
      have a: "addText c (computeStyles anc) us = butlast us @ [TextU (c0 @ c) st0]"
        using False TextU True by (simp add: addText_def)
      have "map shape (butlast us @ [TextU (c0 @ c) st0]) = map shape (butlast us @ [last us])"
        using TextU by simp
      then have "adjacentSame (butlast us @ [TextU (c0 @ c) st0]) = adjacentSame us"
        using adjacentSame_shape [of "butlast us @ [TextU (c0 @ c) st0]" us] False by simp
      moreover have "set (butlast us @ [TextU (c0 @ c) st0]) \<subseteq> insert (TextU (c0 @ c) st0) (set us)"
        by (auto dest: in_set_butlastD)
      moreover have "ordered_unit (TextU (c0 @ c) st0)"
        using True by (simp add: ordered_styles_computeStyles)
      ultimately show ?thesis using assms unfolding a extract_inv_def by blast
    next
      case False
      have "ordered_unit (last us)" using assms \<open>us \<noteq> []\<close> by (simp add: extract_inv_def)
      then have "ordered_styles st0" using TextU by simp
      then have "set st0 \<noteq> set (computeStyles anc)"
        using False ordered_styles_computeStyles [of anc] ordered_styles_set_eq by blast
      then have n: "\<not> sameStyles (last us) ?new" using TextU by simp
      have a: "addText c (computeStyles anc) us = us @ [?new]"
        using \<open>us \<noteq> []\<close> TextU False by (simp add: addText_def)
      show ?thesis unfolding a using assms o n by (rule extract_inv_snoc)
    qed
  next
    case BrU
    then have a: "addText c (computeStyles anc) us = us @ [?new]"
      using False by (simp add: addText_def)
    show ?thesis unfolding a using assms o by (rule extract_inv_snoc) (simp add: BrU)
  next
    case (ImgU s)
    then have a: "addText c (computeStyles anc) us = us @ [?new]"
      using False by (simp add: addText_def)
    show ?thesis unfolding a using assms o by (rule extract_inv_snoc) (simp add: ImgU)
  qed
qed

lemma extract_inv_extractInlines:
  "extract_inv inlines \<Longrightarrow> extract_inv (extractInlines normalizeXML n inlines)"
  "extract_inv inlines \<Longrightarrow> extract_inv (extractInlinesEach normalizeXML anc cs inlines)"
proof (induction normalizeXML n inlines and normalizeXML anc cs inlines
    rule: extractInlines_extractInlinesEach.induct)
  case (1 normalizeXML anc t a cs inlines)
  then show ?case by (auto simp: Let_def extract_inv_br extract_inv_img)
next
  case (2 normalizeXML anc s inlines)
  then show ?case by (simp add: extract_inv_addText)
qed simp_all

lemma extract_inv_foldl:
  "extract_inv m \<Longrightarrow> extract_inv (foldl (\<lambda>m n. extractInlines normalizeXML n m) m ns)"
  by (induction ns arbitrary: m) (simp_all add: extract_inv_extractInlines)

lemma extract_inv_extractAll: "extract_inv (extractAll normalizeXML ns)"
  unfolding extractAll_def by (rule extract_inv_foldl) (rule extract_inv_Nil)

lemma solid_stripLeading: "solid (stripLeading s) = solid s"
  unfolding solid_def stripLeading_def by (induction s) auto

lemma solid_stripTrailing: "solid (stripTrailing s) = solid s"
proof -
  have "solid (rev (dropWhile is_space (rev s))) = solid (dropWhile is_space (rev s))"
    by (simp add: solid_def)
  also have "\<dots> = solid (rev s)"
    using solid_stripLeading [of "rev s"] by (simp add: stripLeading_def)
  also have "\<dots> = solid s" by (simp add: solid_def)
  finally show ?thesis by (simp add: stripTrailing_def)
qed

lemma cleanReduce_solid_shape:
  "\<forall>u\<in>set us. solid_unit u \<Longrightarrow>
   map shape (cleanReduce [] p us) = map shape us \<and> (\<forall>u\<in>set (cleanReduce [] p us). solid_unit u)"
proof (induction us arbitrary: p)
  case Nil
  show ?case by simp
next
  case (Cons u us)
  show ?case
  proof (cases u)
    case (TextU c st)
    have s: "solid (cleanContent p c)" using Cons.prems TextU by (simp add: solid_cleanContent)
    show ?thesis using TextU s solid_not_Nil [OF s] Cons.IH [of "Some (TextU (cleanContent p c) st)"]
        Cons.prems by (simp add: cleanReduce_text)
  next
    case BrU
    then show ?thesis using Cons.IH [of "Some BrU"] Cons.prems by (simp add: cleanReduce_br)
  next
    case (ImgU s)
    then show ?thesis using Cons.IH [of "Some (ImgU s)"] Cons.prems by (simp add: cleanReduce_img)
  qed
qed

lemma trimLeading_solid_shape:
  "\<forall>u\<in>set zs. solid_unit u \<Longrightarrow>
   map shape (trimLeading zs) = map shape zs \<and> (\<forall>u\<in>set (trimLeading zs). solid_unit u)"
proof (cases zs rule: trimLeading.cases)
  case (1 c st rest)
  assume a: "\<forall>u\<in>set zs. solid_unit u"
  then have s: "solid (stripLeading c)" using 1 by (simp add: solid_stripLeading)
  show ?thesis using 1 a s solid_not_Nil [OF s] by simp
qed simp_all

lemma trimTrailing_solid_shape:
  "\<forall>u\<in>set zs. solid_unit u \<Longrightarrow>
   map shape (trimTrailing zs) = map shape zs \<and> (\<forall>u\<in>set (trimTrailing zs). solid_unit u)"
proof (cases zs rule: rev_cases)
  case Nil
  then show ?thesis by simp
next
  case (snoc xs u)
  assume a: "\<forall>u\<in>set zs. solid_unit u"
  show ?thesis
  proof (cases u)
    case (TextU c st)
    have s: "solid (stripTrailing c)" using a snoc TextU by (simp add: solid_stripTrailing)
    show ?thesis using snoc TextU a s solid_not_Nil [OF s] by (simp add: trimTrailing_snoc_text)
  next
    case BrU
    then show ?thesis using snoc a by simp
  next
    case (ImgU s)
    then show ?thesis using snoc a by simp
  qed
qed

lemma cleanInlines_solid_shape:
  assumes "\<forall>u\<in>set us. solid_unit u"
  shows "map shape (cleanInlines us) = map shape us"
proof -
  have 1: "map shape (cleanReduce [] None us) = map shape us"
    and 2: "\<forall>u\<in>set (cleanReduce [] None us). solid_unit u"
    using cleanReduce_solid_shape [OF assms, of None] by simp_all
  have 3: "map shape (trimLeading (cleanReduce [] None us)) = map shape (cleanReduce [] None us)"
    and 4: "\<forall>u\<in>set (trimLeading (cleanReduce [] None us)). solid_unit u"
    using trimLeading_solid_shape [OF 2] by simp_all
  have 5: "map shape (trimTrailing (trimLeading (cleanReduce [] None us))) =
      map shape (trimLeading (cleanReduce [] None us))"
    using trimTrailing_solid_shape [OF 4] by simp
  show ?thesis unfolding cleanInlines_def using 1 3 5 by simp
qed

lemma computeStyles_Nil_member:
  assumes "computeStyles anc = []" and "(sel, s) \<in> set markdown_inline_tags"
  shows "closest anc sel = None"
proof -
  have "\<forall>x\<in>set markdown_inline_tags. \<not> (case x of (sel, s) \<Rightarrow> closest anc sel \<noteq> None)"
    using assms(1) unfolding computeStyles_def by (simp only: map_is_Nil_conv filter_empty_conv)
  then have "\<not> (case (sel, s) of (sel, s) \<Rightarrow> closest anc sel \<noteq> None)"
    using assms(2) by (rule bspec)
  then show ?thesis by simp
qed

lemma inline_tags_bold: "([''b'', ''strong''], ''bold'') \<in> set markdown_inline_tags"
  unfolding markdown_inline_tags_def by (rule list.set_intros(1))

lemma inline_tags_italic: "([''i'', ''em''], ''italic'') \<in> set markdown_inline_tags"
  unfolding markdown_inline_tags_def by (intro list.set_intros(1) list.set_intros(2))

lemma inline_tags_code: "([''code''], ''code'') \<in> set markdown_inline_tags"
  unfolding markdown_inline_tags_def by (intro list.set_intros(1) list.set_intros(2))

lemma computeStyles_Nil_closest:
  assumes "computeStyles anc = []"
  shows "closest anc [''b'', ''strong''] = None" and "closest anc [''i'', ''em''] = None"
    and "closest anc [''code''] = None"
proof -
  show "closest anc [''b'', ''strong''] = None"
    by (rule computeStyles_Nil_member [OF assms inline_tags_bold])
  show "closest anc [''i'', ''em''] = None"
    by (rule computeStyles_Nil_member [OF assms inline_tags_italic])
  show "closest anc [''code''] = None"
    by (rule computeStyles_Nil_member [OF assms inline_tags_code])
qed

lemma computeStyles_bold:
  assumes "toLowerCase t = ''b''" and "computeStyles anc = []"
  shows "computeStyles (t # anc) = [''bold'']"
proof -
  note c = computeStyles_Nil_closest [OF assms(2)]
  show ?thesis
    unfolding computeStyles_def markdown_inline_tags_def
    by (simp add: tagMatches_def assms(1) c)
qed

section \<open>parse returns\<close>

lemma addInline_fresh:
  assumes "\<forall>b\<in>set (blocks st). fresh_block b"
  shows "\<forall>b\<in>set (blocks (addInline el st)). fresh_block b"
proof (cases "currentBlock st")
  case None
  then show ?thesis using assms by (simp add: addInline_def fresh_block_def)
next
  case (Some i)
  show ?thesis
  proof (cases "i < length (blocks st)")
    case True
    let ?b = "(blocks st ! i)\<lparr>nodes := map_option (\<lambda>ns. ns @ [el]) (nodes (blocks st ! i))\<rparr>"
    have "fresh_block (blocks st ! i)" using assms True by simp
    then have "fresh_block ?b" by (auto simp: fresh_block_def)
    moreover have "set ((blocks st)[i := ?b]) \<subseteq> insert ?b (set (blocks st))"
      by (rule set_update_subset_insert)
    ultimately show ?thesis using assms Some by (auto simp: addInline_def)
  next
    case False
    then have "(blocks st)[i := v] = blocks st" for v by (simp add: list_update_beyond)
    then show ?thesis using assms Some by (simp add: addInline_def)
  qed
qed

lemma popEmptyCurrent_fresh:
  "\<forall>b\<in>set (blocks st). fresh_block b \<Longrightarrow> \<forall>b\<in>set (blocks (popEmptyCurrent st)). fresh_block b"
  by (auto simp: popEmptyCurrent_def dest: in_set_butlastD)

lemma pushBlock_fresh:
  "\<forall>b\<in>set (blocks st). fresh_block b \<Longrightarrow> \<forall>b\<in>set (blocks (pushBlock tag st)). fresh_block b"
  by (auto simp: pushBlock_def fresh_block_def)

lemma extract_fresh:
  "\<forall>b\<in>set (blocks st). fresh_block b \<Longrightarrow> \<forall>b\<in>set (blocks (extractEl anc el st)). fresh_block b"
  "\<forall>b\<in>set (blocks st). fresh_block b \<Longrightarrow> \<forall>b\<in>set (blocks (extractChildren anc cs st)). fresh_block b"
proof (induction anc el st and anc cs st rule: extractEl_extractChildren.induct)
  case (1 anc t a cs st)
  show ?case
  proof (cases "toLowerCase t \<in> set block_elements")
    case False
    then show ?thesis using 1(2) by (simp add: addInline_fresh)
  next
    case True
    have "\<forall>b\<in>set (blocks (pushBlock (toLowerCase t) (popEmptyCurrent st))). fresh_block b"
      using 1(2) by (intro pushBlock_fresh popEmptyCurrent_fresh)
    then have "\<forall>b\<in>set (blocks (extractChildren (t # anc) cs
        (pushBlock (toLowerCase t) (popEmptyCurrent st)))). fresh_block b"
      using 1(1) [OF refl] True by simp
    then show ?thesis using True by (simp add: Let_def)
  qed
next
  case (2 anc s st)
  then show ?case by (simp add: addInline_fresh)
next
  case (3 anc s st)
  then show ?case by (simp add: addInline_fresh)
next
  case (4 anc st)
  then show ?case by simp
next
  case (5 anc c cs st)
  then show ?case by simp
qed

lemma extractBlocks_fresh: "\<forall>b\<in>set (extractBlocks root). fresh_block b"
  unfolding extractBlocks_def by (rule extract_fresh(1)) simp

lemma compactBlocks_compacted:
  "\<forall>b\<in>set bs. fresh_block b \<Longrightarrow> \<forall>b\<in>set (compactBlocks bs). compacted_block b"
  by (induction bs) (auto simp: Let_def fresh_block_def compacted_block_def)

lemma setContent_filled:
  "compacted_block b \<Longrightarrow> \<exists>c. setContent normalizeXML b = Inr c \<and> filled_block normalizeXML c"
  by (auto simp: setContent_def compacted_block_def filled_block_def)

lemma forEachE_setContent:
  "\<forall>b\<in>set bs. compacted_block b \<Longrightarrow>
   \<exists>cs. forEachE (setContent normalizeXML) bs = Inr cs \<and> (\<forall>c\<in>set cs. filled_block normalizeXML c)"
proof (induction bs)
  case Nil
  show ?case by simp
next
  case (Cons b bs)
  obtain c where c: "setContent normalizeXML b = Inr c" "filled_block normalizeXML c"
    using setContent_filled [of b normalizeXML] Cons.prems by auto
  obtain cs where cs: "forEachE (setContent normalizeXML) bs = Inr cs"
      "\<forall>c\<in>set cs. filled_block normalizeXML c"
    using Cons by auto
  show ?case using c cs by simp
qed

lemma hasContent_filled: "filled_block normalizeXML c \<Longrightarrow> \<exists>k. hasContent c = Inr k"
  by (auto simp: hasContent_def filled_block_def split: if_splits option.splits)

lemma filterE_hasContent:
  "\<forall>c\<in>set cs. filled_block normalizeXML c \<Longrightarrow>
   \<exists>ds. filterE hasContent cs = Inr ds \<and> set ds \<subseteq> set cs"
proof (induction cs)
  case Nil
  show ?case by simp
next
  case (Cons c cs)
  obtain k where k: "hasContent c = Inr k"
    using hasContent_filled [of normalizeXML c] Cons.prems by auto
  obtain ds where ds: "filterE hasContent cs = Inr ds" "set ds \<subseteq> set cs"
    using Cons by auto
  show ?case using k ds by auto
qed

lemma parse_returns:
  assumes "resolveWindow optionsWindow globalWindow doc \<noteq> None"
  shows "\<exists>ds. parse normalizeXML optionsWindow globalWindow doc = Inr (map (\<lambda>b. b\<lparr>nodes := None\<rparr>) ds) \<and>
           (\<forall>d\<in>set ds. filled_block normalizeXML d)"
proof -
  obtain w where w: "resolveWindow optionsWindow globalWindow doc = Some w" using assms by auto
  have "\<forall>b\<in>set (compactBlocks (extractBlocks (body doc))). compacted_block b"
    by (rule compactBlocks_compacted) (rule extractBlocks_fresh)
  then obtain cs where cs: "forEachE (setContent normalizeXML)
      (compactBlocks (extractBlocks (body doc))) = Inr cs"
      "\<forall>c\<in>set cs. filled_block normalizeXML c"
    using forEachE_setContent by blast
  obtain ds where ds: "filterE hasContent cs = Inr ds" "set ds \<subseteq> set cs"
    using filterE_hasContent [OF cs(2)] by blast
  show ?thesis using w cs ds by (auto simp: parse_def)
qed

lemma parse_error_only_window:
  "parse normalizeXML optionsWindow globalWindow doc = Inl e \<Longrightarrow>
   e = MissingWindow \<and> resolveWindow optionsWindow globalWindow doc = None"
proof (cases "resolveWindow optionsWindow globalWindow doc")
  case None
  assume "parse normalizeXML optionsWindow globalWindow doc = Inl e"
  then show ?thesis using None by (simp add: parse_def)
next
  case (Some w)
  assume p: "parse normalizeXML optionsWindow globalWindow doc = Inl e"
  have "resolveWindow optionsWindow globalWindow doc \<noteq> None" using Some by simp
  from parse_returns [OF this, of normalizeXML] show ?thesis using p by auto
qed

lemma parse_block_content:
  assumes "parse normalizeXML optionsWindow globalWindow doc = Inr bs" and "b \<in> set bs"
    and "content b = Some us"
  shows "\<exists>ns. us = cleanInlines (extractAll normalizeXML ns)"
proof -
  have "resolveWindow optionsWindow globalWindow doc \<noteq> None"
    using assms(1) by (auto simp: parse_def split: option.splits)
  from parse_returns [OF this, of normalizeXML] obtain ds where
    ds: "bs = map (\<lambda>b. b\<lparr>nodes := None\<rparr>) ds" "\<forall>d\<in>set ds. filled_block normalizeXML d"
    using assms(1) by auto
  then obtain d where d: "d \<in> set ds" "b = d\<lparr>nodes := None\<rparr>" using assms(2) by auto
  have "filled_block normalizeXML d" using ds(2) d(1) by simp
  then show ?thesis using d(2) assms(3)
    by (auto simp: filled_block_def split: if_splits option.splits)
qed

section \<open>Compaction, rendering and evaluation\<close>

lemmas eval_defs = parse_def html2md_def resolveWindow_def extractBlocks_def Let_def
  toLowerCase_def toLowerCase_char_def block_elements_def markdown_block_tags_def
  markdown_empty_blocks_def empty_tags_def popEmptyCurrent_def pushBlock_def
  currentIsEmptyLast_def addInline_def meaningfulNode_def getTextContent_def trim_def
  stripLeading_def stripTrailing_def tagMatches_def setContent_def hasContent_def
  extractAll_def getAttribute_def cleanInlines_def toMarkdown_def renderBlock_def
  renderContent_def updateStyles_def difference_def syntaxOrEmpty_def markdown_syntax_def
  cleanReduce.simps(2-4) trimTrailing.simps

lemma compactBlocks_keeps_meaningful:
  assumes "nodes b = Some ns" and "n \<in> set ns" and "meaningfulNode n"
  shows "\<exists>b'. compactBlocks (b # bs) = b' # compactBlocks bs \<and> type b' = type b"
proof (cases "type b \<in> set markdown_empty_blocks")
  case True
  then show ?thesis by (simp add: Let_def)
next
  case False
  have "list_ex meaningfulNode ns" using assms(2,3) by (auto simp: list_ex_iff)
  then show ?thesis using False assms(1) by (simp add: Let_def)
qed

lemma compactBlocks_drops_meaningless:
  assumes "type b \<notin> set markdown_empty_blocks" and "nodes b = Some ns"
    and "\<forall>n\<in>set ns. \<not> meaningfulNode n"
  shows "compactBlocks (b # bs) = compactBlocks bs"
  using assms by (simp add: Let_def list_ex_iff)

lemma html2md_returns:
  assumes "resolveWindow optionsWindow globalWindow doc \<noteq> None"
  shows "\<exists>md. html2md normalizeXML optionsWindow globalWindow doc = Inr md"
  using parse_returns [OF assms, of normalizeXML] by (auto simp: html2md_def)

lemma renderBlock_prefix:
  "renderBlock \<lparr>type = ''h1'', nodes = n, content = c\<rparr> =
     Some (''# '' @ renderContent \<lparr>type = ''h1'', nodes = n, content = c\<rparr>)"
  "renderBlock \<lparr>type = ''h2'', nodes = n, content = c\<rparr> =
     Some (''## '' @ renderContent \<lparr>type = ''h2'', nodes = n, content = c\<rparr>)"
  "renderBlock \<lparr>type = ''h3'', nodes = n, content = c\<rparr> =
     Some (''### '' @ renderContent \<lparr>type = ''h3'', nodes = n, content = c\<rparr>)"
  "renderBlock \<lparr>type = ''h4'', nodes = n, content = c\<rparr> =
     Some (''#### '' @ renderContent \<lparr>type = ''h4'', nodes = n, content = c\<rparr>)"
  "renderBlock \<lparr>type = ''h5'', nodes = n, content = c\<rparr> =
     Some (''##### '' @ renderContent \<lparr>type = ''h5'', nodes = n, content = c\<rparr>)"
  "renderBlock \<lparr>type = ''h6'', nodes = n, content = c\<rparr> =
     Some (''###### '' @ renderContent \<lparr>type = ''h6'', nodes = n, content = c\<rparr>)"
  "renderBlock \<lparr>type = ''blockquote'', nodes = n, content = c\<rparr> =
     Some (''> '' @ renderContent \<lparr>type = ''blockquote'', nodes = n, content = c\<rparr>)"
  "renderBlock \<lparr>type = ''pre'', nodes = n, content = c\<rparr> =
     Some ([CHR '' '', CHR '' ''] @ renderContent \<lparr>type = ''pre'', nodes = n, content = c\<rparr>)"
  "renderBlock \<lparr>type = ''p'', nodes = n, content = c\<rparr> =
     Some (renderContent \<lparr>type = ''p'', nodes = n, content = c\<rparr>)"
  "renderBlock \<lparr>type = ''li'', nodes = n, content = c\<rparr> = None"
  by (simp_all add: renderBlock_def syntaxOrEmpty_def markdown_syntax_def)

section \<open>Block extraction leaves earlier blocks in place\<close>

lemma addInline_above:
  "above n st \<Longrightarrow> take n (blocks (addInline el st)) = take n (blocks st) \<and> above n (addInline el st)"
  by (cases "currentBlock st") (simp_all add: above_def addInline_def)

lemma popEmptyCurrent_above:
  assumes "above n st"
  shows "take n (blocks (popEmptyCurrent st)) = take n (blocks st) \<and> above n (popEmptyCurrent st)"
proof (cases "currentIsEmptyLast st")
  case False
  then show ?thesis using assms by (simp add: popEmptyCurrent_def)
next
  case True
  then obtain i where i: "currentBlock st = Some i" "Suc i = length (blocks st)"
    by (auto simp: currentIsEmptyLast_def split: option.splits)
  have n: "n < length (blocks st)" using assms i by (simp add: above_def)
  then have "take n (butlast (blocks st)) = take n (blocks st)" by (simp add: take_butlast)
  then show ?thesis using True assms i n by (simp add: popEmptyCurrent_def above_def)
qed

lemma pushBlock_above:
  "n \<le> length (blocks st) \<Longrightarrow>
   take n (blocks (pushBlock tag st)) = take n (blocks st) \<and> above n (pushBlock tag st)"
  by (simp add: pushBlock_def above_def)

lemma extract_above:
  "above n st \<Longrightarrow>
   take n (blocks (extractEl anc el st)) = take n (blocks st) \<and> above n (extractEl anc el st)"
  "above n st \<Longrightarrow>
   take n (blocks (extractChildren anc cs st)) = take n (blocks st) \<and>
   above n (extractChildren anc cs st)"
proof (induction anc el st and anc cs st rule: extractEl_extractChildren.induct)
  case (1 anc t a cs st)
  show ?case
  proof (cases "toLowerCase t \<in> set block_elements")
    case False
    then show ?thesis using 1(2) by (simp add: addInline_above)
  next
    case True
    let ?p = "popEmptyCurrent st"
    let ?q = "pushBlock (toLowerCase t) ?p"
    have p: "take n (blocks ?p) = take n (blocks st)" "above n ?p"
      using popEmptyCurrent_above [OF 1(2)] by simp_all
    then have q: "take n (blocks ?q) = take n (blocks st)" "above n ?q"
      using pushBlock_above [of n ?p "toLowerCase t"] by (simp_all add: above_def)
    have "take n (blocks (extractChildren (t # anc) cs ?q)) = take n (blocks ?q) \<and>
        above n (extractChildren (t # anc) cs ?q)"
      using 1(1) [OF refl _ q(2)] True by simp
    then show ?thesis using True q by (simp add: Let_def above_def)
  qed
next
  case (2 anc s st)
  then show ?case by (simp add: addInline_above)
next
  case (3 anc s st)
  then show ?case by (simp add: addInline_above)
next
  case (4 anc st)
  then show ?case by simp
next
  case (5 anc c cs st)
  then show ?case by simp
qed

lemma extractEl_popped:
  assumes "toLowerCase t \<in> set block_elements" and "currentIsEmptyLast st"
  shows "extractEl anc (Element t a cs) st =
     extractEl anc (Element t a cs) (st\<lparr>blocks := butlast (blocks st), currentBlock := None\<rparr>)"
proof -
  have "pushBlock (toLowerCase t) (popEmptyCurrent st) =
      pushBlock (toLowerCase t)
        (popEmptyCurrent (st\<lparr>blocks := butlast (blocks st), currentBlock := None\<rparr>))"
    using assms(2) by (simp add: popEmptyCurrent_def pushBlock_def currentIsEmptyLast_def)
  then show ?thesis using assms(1) by (simp add: Let_def)
qed

lemma extractEl_kept:
  assumes "toLowerCase t \<in> set block_elements" and "\<not> currentIsEmptyLast st"
  shows "take (length (blocks st)) (blocks (extractEl anc (Element t a cs) st)) = blocks st"
proof -
  let ?q = "pushBlock (toLowerCase t) st"
  have "above (length (blocks st)) ?q" by (simp add: pushBlock_def above_def)
  then have "take (length (blocks st)) (blocks (extractChildren (t # anc) cs ?q)) =
      take (length (blocks st)) (blocks ?q)"
    using extract_above(2) by blast
  then show ?thesis using assms by (simp add: Let_def popEmptyCurrent_def pushBlock_def)
qed

lemma compactBlocks_members:
  "b \<in> set (compactBlocks bs) \<Longrightarrow>
   type b \<in> set markdown_empty_blocks \<or> (\<exists>ns. nodes b = Some ns \<and> list_ex meaningfulNode ns)"
  by (induction bs) (auto simp: Let_def split: if_splits option.splits)

lemma addInline_current_last: "current_last st \<Longrightarrow> current_last (addInline el st)"
  by (cases "currentBlock st") (simp_all add: current_last_def addInline_def)

lemma extract_current_last:
  "current_last st \<Longrightarrow> current_last (extractEl anc el st)"
  "current_last st \<Longrightarrow> current_last (extractChildren anc cs st)"
proof (induction anc el st and anc cs st rule: extractEl_extractChildren.induct)
  case (1 anc t a cs st)
  show ?case
  proof (cases "toLowerCase t \<in> set block_elements")
    case True
    then show ?thesis by (simp add: Let_def current_last_def)
  next
    case False
    then show ?thesis using 1(2) by (simp add: addInline_current_last)
  qed
next
  case (2 anc s st)
  then show ?case by (simp add: addInline_current_last)
next
  case (3 anc s st)
  then show ?case by (simp add: addInline_current_last)
next
  case (4 anc st)
  then show ?case by simp
next
  case (5 anc c cs st)
  then show ?case by simp
qed

section \<open>The claims\<close>

text \<open>
  C1, as the code has it. \<open>cleanInlines\<close> is not idempotent on every sequence: the first loop
  tests a text unit against the unit before it in the array it reads, and when that unit is
  dropped the text unit ends up next to another unit, against which a second run tests it.
  Here the bold unit holds one space only. The first run drops it and keeps the space that
  starts the third unit; the second run strips that space.
\<close>

theorem cleanInlines_not_idempotent:
  "cleanInlines [TextU ''a '' [], TextU '' '' [''bold''], TextU '' b'' []] =
     [TextU ''a '' [], TextU '' b'' []] \<and>
   cleanInlines [TextU ''a '' [], TextU '' b'' []] = [TextU ''a '' [], TextU ''b'' []] \<and>
   cleanInlines (cleanInlines [TextU ''a '' [], TextU '' '' [''bold''], TextU '' b'' []]) \<noteq>
     cleanInlines [TextU ''a '' [], TextU '' '' [''bold''], TextU '' b'' []]"
proof -
  have a: "cleanInlines [TextU ''a '' [], TextU '' '' [''bold''], TextU '' b'' []] =
      [TextU ''a '' [], TextU '' b'' []]"
    by code_simp
  have b: "cleanInlines [TextU ''a '' [], TextU '' b'' []] = [TextU ''a '' [], TextU ''b'' []]"
    by code_simp
  show ?thesis by (simp add: a b)
qed

text \<open>
  C1, amended. On every sequence whose text units each hold a character that is not
  whitespace, \<open>cleanInlines\<close> is idempotent: applied to its own output it returns that output.
\<close>

theorem cleanInlines_idempotent_solid:
  "\<forall>u\<in>set inlines. solid_unit u \<Longrightarrow> cleanInlines (cleanInlines inlines) = cleanInlines inlines"
  by (rule cleanInlines_idem_if_stable) (simp add: cleanReduce_stable)

theorem cleanInlines_idempotent_solid_witness:
  "solid_unit (TextU ''  a  '' []) \<and> solid_unit BrU \<and> solid_unit (TextU '' b '' [''bold'']) \<and>
   cleanInlines (cleanInlines [TextU ''  a  '' [], BrU, TextU '' b '' [''bold'']]) =
     cleanInlines [TextU ''  a  '' [], BrU, TextU '' b '' [''bold'']]"
  using cleanInlines_idempotent_solid [of "[TextU ''  a  '' [], BrU, TextU '' b '' [''bold'']]"]
  by (simp add: solid_def is_space_def)

text \<open>
  C2, as the code has it. A block that \<open>parse\<close> returns can hold two text units with the same
  style set next to each other: for \<^verbatim>\<open><p>a <b> </b> b</p>\<close> the bold unit holds one space
  only, \<open>cleanInlines\<close> drops it, and the two plain units it stood between are left side by
  side, not merged.
\<close>

theorem parse_adjacent_same_styles:
  "parse (\<lambda>s. s) None None
     \<lparr>body = Element ''BODY'' []
        [Element ''P'' [] [TextNode ''a '', Element ''B'' [] [TextNode '' ''], TextNode '' b'']],
      parentWindow = None, defaultView = Some Window\<rparr> =
   Inr [\<lparr>type = ''p'', nodes = None, content = Some [TextU ''a '' [], TextU '' b'' []]\<rparr>] \<and>
   adjacentSame [TextU ''a '' [], TextU '' b'' []]"
proof -
  have "parse (\<lambda>s. s) None None
     \<lparr>body = Element ''BODY'' []
        [Element ''P'' [] [TextNode ''a '', Element ''B'' [] [TextNode '' ''], TextNode '' b'']],
      parentWindow = None, defaultView = Some Window\<rparr> =
   Inr [\<lparr>type = ''p'', nodes = None, content = Some [TextU ''a '' [], TextU '' b'' []]\<rparr>]"
    by code_simp
  then show ?thesis by (simp add: adjacentSame_def)
qed

text \<open>
  C2, amended. The content of every block that \<open>parse\<close> returns is \<open>cleanInlines\<close> of the
  sequence extracted from nodes \<open>ns\<close>. In the extracted sequence, for any nodes, no two text
  units next to each other have the same style set; and when every text unit of the
  extracted sequence holds a character that is not whitespace (so that cleaning drops no
  unit), the same holds of the cleaned sequence.
\<close>

theorem units_differ_before_cleaning:
  "(parse normalizeXML optionsWindow globalWindow doc = Inr bs \<and> b \<in> set bs \<and>
    content b = Some us \<longrightarrow> (\<exists>ns. us = cleanInlines (extractAll normalizeXML ns))) \<and>
   \<not> adjacentSame (extractAll normalizeXML ns') \<and>
   ((\<forall>u\<in>set (extractAll normalizeXML ns'). solid_unit u) \<longrightarrow>
      \<not> adjacentSame (cleanInlines (extractAll normalizeXML ns')))"
  using parse_block_content [of normalizeXML optionsWindow globalWindow doc bs b us]
    extract_inv_extractAll [of normalizeXML ns']
    adjacentSame_shape [OF cleanInlines_solid_shape, of "extractAll normalizeXML ns'"]
  by (auto simp: extract_inv_def)

theorem units_differ_before_cleaning_witness:
  "parse (\<lambda>s. s) None None
     \<lparr>body = Element ''BODY'' []
        [Element ''P'' [] [TextNode ''a '', Element ''B'' [] [TextNode ''b''], TextNode '' c'']],
      parentWindow = None, defaultView = Some Window\<rparr> =
   Inr [\<lparr>type = ''p'', nodes = None,
         content = Some [TextU ''a '' [], TextU ''b'' [''bold''], TextU '' c'' []]\<rparr>] \<and>
   (\<exists>ns. [TextU ''a '' [], TextU ''b'' [''bold''], TextU '' c'' []] =
      cleanInlines (extractAll (\<lambda>s. s) ns)) \<and>
   solid_unit (TextU ''a '' []) \<and> solid_unit (TextU ''b'' [''bold'']) \<and> solid_unit (TextU '' c'' []) \<and>
   extractAll (\<lambda>s. s)
     [([''P''], TextNode ''a ''), ([''P''], Element ''B'' [] [TextNode ''b'']), ([''P''], TextNode '' c'')] =
   [TextU ''a '' [], TextU ''b'' [''bold''], TextU '' c'' []] \<and>
   \<not> adjacentSame (cleanInlines (extractAll (\<lambda>s. s)
     [([''P''], TextNode ''a ''), ([''P''], Element ''B'' [] [TextNode ''b'']), ([''P''], TextNode '' c'')]))"
proof -
  let ?doc = "\<lparr>body = Element ''BODY'' []
        [Element ''P'' [] [TextNode ''a '', Element ''B'' [] [TextNode ''b''], TextNode '' c'']],
      parentWindow = None, defaultView = Some Window\<rparr>"
  let ?b = "\<lparr>type = ''p'', nodes = None,
         content = Some [TextU ''a '' [], TextU ''b'' [''bold''], TextU '' c'' []]\<rparr>"
  let ?ns = "[([''P''], TextNode ''a ''), ([''P''], Element ''B'' [] [TextNode ''b'']),
      ([''P''], TextNode '' c'')]"
  have p: "parse (\<lambda>s. s) None None ?doc = Inr [?b]"
    by code_simp
  have e: "extractAll (\<lambda>s. s) ?ns = [TextU ''a '' [], TextU ''b'' [''bold''], TextU '' c'' []]"
    by code_simp
  have s: "solid_unit (TextU ''a '' []) \<and> solid_unit (TextU ''b'' [''bold'']) \<and>
      solid_unit (TextU '' c'' [])"
    by (simp add: solid_def is_space_def)
  show ?thesis
    using units_differ_before_cleaning
      [of "\<lambda>s. s" None None ?doc "[?b]" ?b "[TextU ''a '' [], TextU ''b'' [''bold''], TextU '' c'' []]" ?ns]
      p e s
    by simp
qed

text \<open>
  C3. For a block whose nodes are the two elements \<^verbatim>\<open><b>a</b><b>b</b>\<close>, under ancestors
  that carry no style and with a normalizer that leaves \<open>a\<close> and \<open>b\<close> as they are, inline
  extraction gives the one text unit \<open>ab\<close> with the styles \<open>[bold]\<close>. In general a text
  node whose computed styles are, as a set, those of a text unit that ends the sequence is
  merged into that unit: its text is appended to the content and no unit is added. (The
  style arrays that extraction makes list their styles in the order of the table, so that
  equal sets are equal arrays, which is what \<^verbatim>\<open>_.isEqual\<close> compares.)
\<close>

theorem bold_runs_merge:
  "(toLowerCase t1 = ''b'' \<and> toLowerCase t2 = ''b'' \<and> computeStyles anc = [] \<and>
    normalizeXML ''a'' = ''a'' \<and> normalizeXML ''b'' = ''b'' \<longrightarrow>
      extractAll normalizeXML
        [(anc, Element t1 a1 [TextNode ''a'']), (anc, Element t2 a2 [TextNode ''b''])] =
      [TextU ''ab'' [''bold'']]) \<and>
   (inlines \<noteq> [] \<and> last inlines = TextU c0 st0 \<and> ordered_styles st0 \<and>
    set st0 = set (computeStyles anc') \<longrightarrow>
      extractInlines normalizeXML (anc', TextNode s) inlines =
      butlast inlines @ [TextU (c0 @ normalizeXML s) st0])"
proof (intro conjI impI)
  assume h: "toLowerCase t1 = ''b'' \<and> toLowerCase t2 = ''b'' \<and> computeStyles anc = [] \<and>
    normalizeXML ''a'' = ''a'' \<and> normalizeXML ''b'' = ''b''"
  then have "computeStyles (t1 # anc) = [''bold'']" "computeStyles (t2 # anc) = [''bold'']"
    by (simp_all add: computeStyles_bold)
  then show "extractAll normalizeXML
        [(anc, Element t1 a1 [TextNode ''a'']), (anc, Element t2 a2 [TextNode ''b''])] =
      [TextU ''ab'' [''bold'']]"
    using h by (simp add: extractAll_def addText_def getTextContent_def)
next
  assume h: "inlines \<noteq> [] \<and> last inlines = TextU c0 st0 \<and> ordered_styles st0 \<and>
    set st0 = set (computeStyles anc')"
  then have "st0 = computeStyles anc'"
    using ordered_styles_set_eq [OF _ ordered_styles_computeStyles] by blast
  then show "extractInlines normalizeXML (anc', TextNode s) inlines =
      butlast inlines @ [TextU (c0 @ normalizeXML s) st0]"
    using h by (simp add: addText_def getTextContent_def)
qed

theorem bold_runs_merge_witness:
  "extractAll (\<lambda>s. s)
     [([''P'', ''BODY'', ''HTML''], Element ''B'' [] [TextNode ''a'']),
      ([''P'', ''BODY'', ''HTML''], Element ''B'' [] [TextNode ''b''])] =
   [TextU ''ab'' [''bold'']] \<and>
   extractInlines (\<lambda>s. s) ([''STRONG'', ''P''], TextNode ''y'') [BrU, TextU ''x'' [''bold'']] =
   [BrU, TextU ''xy'' [''bold'']]"
  using bold_runs_merge [of "''B''" "''B''" "[''P'', ''BODY'', ''HTML'']" "\<lambda>s. s" "[]" "[]"
      "[BrU, TextU ''x'' [''bold'']]" "''x''" "[''bold'']" "[''STRONG'', ''P'']" "''y''"]
  by (simp add: toLowerCase_def toLowerCase_char_def computeStyles_def markdown_inline_tags_def
      tagMatches_def ordered_styles_def)

text \<open>
  C4. Every text unit of a cleaned inline sequence has a content that is not empty and that
  holds no run of two or more whitespace characters, whatever sequence was cleaned.
\<close>

theorem cleanInlines_text_content:
  "TextU c st \<in> set (cleanInlines inlines) \<Longrightarrow> c \<noteq> [] \<and> no_ws_run c"
  using cleanInlines_clean_units [of inlines] by (auto simp: ws_normal_def)

theorem cleanInlines_text_content_witness:
  "TextU ''a b'' [''bold''] \<in> set (cleanInlines [TextU ''  a   b '' [''bold''], TextU ''   '' []]) \<and>
   ''a b'' \<noteq> [] \<and> no_ws_run ''a b''"
proof -
  have m: "TextU ''a b'' [''bold''] \<in> set (cleanInlines [TextU ''  a   b '' [''bold''], TextU ''   '' []])"
    by code_simp
  show ?thesis using m cleanInlines_text_content [OF m] by simp
qed

text \<open>
  C5. Let a block element be met while the open block has no nodes and a type other than
  \<open>hr\<close>. If the open block is the last of \<open>blocks\<close> it is removed: extraction goes on as from
  the state without it. If it is not the last, all the blocks there are stay as they are,
  the empty one among them, and new blocks come after them; a block without nodes and of
  another type than \<open>hr\<close> is in no result of \<open>compactBlocks\<close>, the later pass that removes
  it. (Within \<open>extractBlocks\<close> the open block is always the last one, by
  \<open>extract_current_last\<close>; the theorem is about any state.)
\<close>

theorem empty_current_block_popped_only_when_last:
  assumes "toLowerCase t \<in> set block_elements" and "currentBlock st = Some i"
    and "i < length (blocks st)" and "nodes (blocks st ! i) = Some []"
    and "type (blocks st ! i) \<notin> set markdown_empty_blocks"
  shows "(Suc i = length (blocks st) \<longrightarrow>
            extractEl anc (Element t a cs) st =
            extractEl anc (Element t a cs)
              (st\<lparr>blocks := butlast (blocks st), currentBlock := None\<rparr>)) \<and>
         (Suc i \<noteq> length (blocks st) \<longrightarrow>
            take (length (blocks st)) (blocks (extractEl anc (Element t a cs) st)) = blocks st) \<and>
         blocks st ! i \<notin> set (compactBlocks bs)"
proof (intro conjI impI)
  assume "Suc i = length (blocks st)"
  then have "currentIsEmptyLast st" using assms by (simp add: currentIsEmptyLast_def)
  then show "extractEl anc (Element t a cs) st =
      extractEl anc (Element t a cs) (st\<lparr>blocks := butlast (blocks st), currentBlock := None\<rparr>)"
    using assms(1) by (rule extractEl_popped [rotated])
next
  assume "Suc i \<noteq> length (blocks st)"
  then have "\<not> currentIsEmptyLast st" using assms(2) by (simp add: currentIsEmptyLast_def)
  then show "take (length (blocks st)) (blocks (extractEl anc (Element t a cs) st)) = blocks st"
    using assms(1) by (rule extractEl_kept [rotated])
next
  show "blocks st ! i \<notin> set (compactBlocks bs)"
    using compactBlocks_members [of "blocks st ! i" bs] assms(4,5) by auto
qed

theorem empty_current_block_popped_only_when_last_witness:
  "blocks (extractEl [''BODY''] (Element ''DIV'' [] [TextNode ''x''])
     \<lparr>blocks = [\<lparr>type = ''p'', nodes = Some [], content = None\<rparr>], currentBlock = Some 0\<rparr>) =
     [\<lparr>type = ''p'', nodes = Some [([''DIV'', ''BODY''], TextNode ''x'')], content = None\<rparr>] \<and>
   blocks (extractEl [''BODY''] (Element ''DIV'' [] [TextNode ''x''])
     \<lparr>blocks = [\<lparr>type = ''p'', nodes = Some [], content = None\<rparr>,
                \<lparr>type = ''h1'', nodes = Some [([''H1'', ''BODY''], TextNode ''y'')], content = None\<rparr>],
      currentBlock = Some 0\<rparr>) =
     [\<lparr>type = ''p'', nodes = Some [], content = None\<rparr>,
      \<lparr>type = ''h1'', nodes = Some [([''H1'', ''BODY''], TextNode ''y'')], content = None\<rparr>,
      \<lparr>type = ''p'', nodes = Some [([''DIV'', ''BODY''], TextNode ''x'')], content = None\<rparr>] \<and>
   compactBlocks
     [\<lparr>type = ''p'', nodes = Some [], content = None\<rparr>,
      \<lparr>type = ''h1'', nodes = Some [([''H1'', ''BODY''], TextNode ''y'')], content = None\<rparr>,
      \<lparr>type = ''p'', nodes = Some [([''DIV'', ''BODY''], TextNode ''x'')], content = None\<rparr>] =
     [\<lparr>type = ''h1'', nodes = Some [([''H1'', ''BODY''], TextNode ''y'')], content = None\<rparr>,
      \<lparr>type = ''p'', nodes = Some [([''DIV'', ''BODY''], TextNode ''x'')], content = None\<rparr>]"
  using empty_current_block_popped_only_when_last
    [of "''DIV''"
      "\<lparr>blocks = [\<lparr>type = ''p'', nodes = Some [], content = None\<rparr>], currentBlock = Some 0\<rparr>"
      0 "[''BODY'']" "[]" "[TextNode ''x'']" "[]"]
    empty_current_block_popped_only_when_last
    [of "''DIV''"
      "\<lparr>blocks = [\<lparr>type = ''p'', nodes = Some [], content = None\<rparr>,
                 \<lparr>type = ''h1'', nodes = Some [([''H1'', ''BODY''], TextNode ''y'')], content = None\<rparr>],
        currentBlock = Some 0\<rparr>"
      0 "[''BODY'']" "[]" "[TextNode ''x'']" "[]"]
  by (simp add: eval_defs is_space_def)

text \<open>
  C6, where the code departs from it. The \<open>switch\<close> of \<open>toMarkdown\<close> lists \<open>blockquote\<close>,
  \<open>pre\<close>, \<open>p\<close>, \<open>hr\<close> and \<open>h1\<close> to \<open>h6\<close> (\<open>renderBlock_prefix\<close> gives their prefixes) and has
  no case for \<open>li\<close>, although \<open>parse\<close> makes blocks of that type and the table holds the list
  markers \<open>ul\<close> and \<open>ol\<close>: the callback returns \<open>undefined\<close> for a list item, and \<open>join\<close> writes
  it as the empty string. For \<^verbatim>\<open><ul><li>x</li></ul>\<close> the output is empty.
\<close>

theorem li_block_not_rendered:
  "renderBlock \<lparr>type = ''li'', nodes = None, content = Some [TextU ''x'' []]\<rparr> = None \<and>
   toMarkdown [\<lparr>type = ''li'', nodes = None, content = Some [TextU ''x'' []]\<rparr>] = [] \<and>
   parse (\<lambda>s. s) None None
     \<lparr>body = Element ''BODY'' [] [Element ''UL'' [] [Element ''LI'' [] [TextNode ''x'']]],
      parentWindow = None, defaultView = Some Window\<rparr> =
     Inr [\<lparr>type = ''li'', nodes = None, content = Some [TextU ''x'' []]\<rparr>] \<and>
   html2md (\<lambda>s. s) None None
     \<lparr>body = Element ''BODY'' [] [Element ''UL'' [] [Element ''LI'' [] [TextNode ''x'']]],
      parentWindow = None, defaultView = Some Window\<rparr> =
     Inr []"
proof -
  have "parse (\<lambda>s. s) None None
     \<lparr>body = Element ''BODY'' [] [Element ''UL'' [] [Element ''LI'' [] [TextNode ''x'']]],
      parentWindow = None, defaultView = Some Window\<rparr> =
     Inr [\<lparr>type = ''li'', nodes = None, content = Some [TextU ''x'' []]\<rparr>]"
    by code_simp
  moreover have "html2md (\<lambda>s. s) None None
     \<lparr>body = Element ''BODY'' [] [Element ''UL'' [] [Element ''LI'' [] [TextNode ''x'']]],
      parentWindow = None, defaultView = Some Window\<rparr> =
     Inr []"
    by code_simp
  ultimately show ?thesis by (simp add: toMarkdown_def renderBlock_def)
qed

text \<open>
  C7, as the code has it. For an \<open>img\<close> element without \<open>src\<close> the attribute lookup returns
  \<open>null\<close>, the unit carries it as it is, and the renderer writes \<open>null\<close> between the
  brackets.
\<close>

theorem img_without_src_renders_null:
  "parse (\<lambda>s. s) None None
     \<lparr>body = Element ''BODY'' [] [Element ''IMG'' [] []], parentWindow = None,
      defaultView = Some Window\<rparr> =
     Inr [\<lparr>type = ''p'', nodes = None, content = Some [ImgU None]\<rparr>] \<and>
   html2md (\<lambda>s. s) None None
     \<lparr>body = Element ''BODY'' [] [Element ''IMG'' [] []], parentWindow = None,
      defaultView = Some Window\<rparr> =
     Inr ''![](null)'' \<and>
   ImgU None \<noteq> ImgU (Some []) \<and> ''![](null)'' \<noteq> ''![]()''"
proof -
  have "parse (\<lambda>s. s) None None
     \<lparr>body = Element ''BODY'' [] [Element ''IMG'' [] []], parentWindow = None,
      defaultView = Some Window\<rparr> =
     Inr [\<lparr>type = ''p'', nodes = None, content = Some [ImgU None]\<rparr>]"
    by code_simp
  moreover have "html2md (\<lambda>s. s) None None
     \<lparr>body = Element ''BODY'' [] [Element ''IMG'' [] []], parentWindow = None,
      defaultView = Some Window\<rparr> =
     Inr ''![](null)''"
    by code_simp
  ultimately show ?thesis by simp
qed

text \<open>
  C7, amended. For every \<open>img\<close> element with no \<open>src\<close> attribute inline extraction appends
  an \<open>img\<close> unit whose source is \<open>null\<close>, the value the attribute lookup returned, and that
  unit renders as \<^verbatim>\<open>![](null)\<close>. Conversion raises no error: for every document, with a
  window at hand, \<open>html2md\<close> returns a string.
\<close>

theorem img_without_src:
  "(toLowerCase t = ''img'' \<and> getAttribute a ''src'' = None \<longrightarrow>
      extractInlines normalizeXML (anc, Element t a cs) inlines = inlines @ [ImgU None]) \<and>
   renderInline st (ImgU None) = (fst st, snd st @ ''![](null)'') \<and>
   (resolveWindow optionsWindow globalWindow doc \<noteq> None \<longrightarrow>
      (\<exists>md. html2md normalizeXML optionsWindow globalWindow doc = Inr md))"
  using html2md_returns [of optionsWindow globalWindow doc normalizeXML] by simp

theorem img_without_src_witness:
  "extractInlines (\<lambda>s. s) ([''BODY'', ''HTML''], Element ''IMG'' [(''alt'', ''x'')] []) [BrU] =
     [BrU, ImgU None] \<and>
   html2md (\<lambda>s. s) None None
     \<lparr>body = Element ''BODY'' [] [Element ''IMG'' [(''alt'', ''x'')] []], parentWindow = None,
      defaultView = Some Window\<rparr> =
     Inr ''![](null)''"
proof -
  have h: "html2md (\<lambda>s. s) None None
     \<lparr>body = Element ''BODY'' [] [Element ''IMG'' [(''alt'', ''x'')] []], parentWindow = None,
      defaultView = Some Window\<rparr> =
     Inr ''![](null)''"
    by code_simp
  show ?thesis
    using img_without_src [of "''IMG''" "[(''alt'', ''x'')]" "\<lambda>s. s" "[''BODY'', ''HTML'']" "[]"
        "[BrU]" "([], [])" None None
        "\<lparr>body = Element ''BODY'' [] [Element ''IMG'' [(''alt'', ''x'')] []], parentWindow = None,
          defaultView = Some Window\<rparr>"] h
    by (simp add: toLowerCase_def toLowerCase_char_def getAttribute_def)
qed

text \<open>
  C8. For \<^verbatim>\<open><hr>\<close>, the document whose body holds the one element \<open>hr\<close>, \<open>parse\<close> returns
  one block of type \<open>hr\<close> without \<open>content\<close> (and without \<open>nodes\<close>), and the output is
  \<^verbatim>\<open>- - -\<close>. Block extraction gives the \<open>hr\<close> block with an empty node list, \<open>compactBlocks\<close>
  keeps any block of type \<open>hr\<close> and deletes its \<open>nodes\<close>, and step 2 leaves such a block as it
  is: no inline extraction, no \<open>content\<close>.
\<close>

theorem hr_document:
  "(resolveWindow optionsWindow globalWindow
     \<lparr>body = Element ''BODY'' [] [Element ''HR'' [] []], parentWindow = pw, defaultView = dv\<rparr> \<noteq> None \<longrightarrow>
    parse normalizeXML optionsWindow globalWindow
      \<lparr>body = Element ''BODY'' [] [Element ''HR'' [] []], parentWindow = pw, defaultView = dv\<rparr> =
      Inr [\<lparr>type = ''hr'', nodes = None, content = None\<rparr>] \<and>
    html2md normalizeXML optionsWindow globalWindow
      \<lparr>body = Element ''BODY'' [] [Element ''HR'' [] []], parentWindow = pw, defaultView = dv\<rparr> =
      Inr ''- - -'') \<and>
   extractBlocks (Element ''BODY'' [] [Element ''HR'' [] []]) =
     [\<lparr>type = ''hr'', nodes = Some [], content = None\<rparr>] \<and>
   compactBlocks (\<lparr>type = ''hr'', nodes = ns, content = c\<rparr> # bs) =
     \<lparr>type = ''hr'', nodes = None, content = c\<rparr> # compactBlocks bs \<and>
   setContent normalizeXML \<lparr>type = ''hr'', nodes = ns, content = c\<rparr> =
     Inr \<lparr>type = ''hr'', nodes = ns, content = c\<rparr>"
  by (auto simp: eval_defs)

theorem hr_document_witness:
  "parse (\<lambda>s. s) None None
     \<lparr>body = Element ''BODY'' [] [Element ''HR'' [] []], parentWindow = None,
      defaultView = Some Window\<rparr> =
     Inr [\<lparr>type = ''hr'', nodes = None, content = None\<rparr>] \<and>
   html2md (\<lambda>s. s) None None
     \<lparr>body = Element ''BODY'' [] [Element ''HR'' [] []], parentWindow = None,
      defaultView = Some Window\<rparr> =
     Inr ''- - -''"
  using hr_document [of None None None "Some Window" "\<lambda>s. s"]
  by (simp add: resolveWindow_def)

text \<open>
  C9. For \<^verbatim>\<open><div><p></p><img src="x.png"></div>\<close> block extraction gives the empty block of
  the \<open>p\<close> element and a paragraph block that owns the \<open>img\<close>; \<open>compactBlocks\<close> drops the
  first and keeps the second; \<open>parse\<close> returns the one paragraph with the \<open>img\<close> unit, and
  the output is \<^verbatim>\<open>![](x.png)\<close>. In general \<open>compactBlocks\<close> keeps a block that owns a node
  matching, or holding below it, one of \<open>hr\<close>, \<open>br\<close>, \<open>img\<close>, \<open>video\<close>, \<open>audio\<close>, and drops a
  block of another type than \<open>hr\<close> none of whose nodes has text other than whitespace or
  matches or holds such an element.
\<close>

theorem empty_paragraph_and_image:
  "(resolveWindow optionsWindow globalWindow
     \<lparr>body = Element ''BODY'' []
        [Element ''DIV'' [] [Element ''P'' [] [], Element ''IMG'' [(''src'', ''x.png'')] []]],
      parentWindow = pw, defaultView = dv\<rparr> \<noteq> None \<longrightarrow>
    parse normalizeXML optionsWindow globalWindow
      \<lparr>body = Element ''BODY'' []
         [Element ''DIV'' [] [Element ''P'' [] [], Element ''IMG'' [(''src'', ''x.png'')] []]],
       parentWindow = pw, defaultView = dv\<rparr> =
      Inr [\<lparr>type = ''p'', nodes = None, content = Some [ImgU (Some ''x.png'')]\<rparr>] \<and>
    html2md normalizeXML optionsWindow globalWindow
      \<lparr>body = Element ''BODY'' []
         [Element ''DIV'' [] [Element ''P'' [] [], Element ''IMG'' [(''src'', ''x.png'')] []]],
       parentWindow = pw, defaultView = dv\<rparr> =
      Inr ''![](x.png)'') \<and>
   extractBlocks (Element ''BODY'' []
      [Element ''DIV'' [] [Element ''P'' [] [], Element ''IMG'' [(''src'', ''x.png'')] []]]) =
     [\<lparr>type = ''p'', nodes = Some [], content = None\<rparr>,
      \<lparr>type = ''p'',
        nodes = Some [([''DIV'', ''BODY'', ''HTML''], Element ''IMG'' [(''src'', ''x.png'')] [])],
        content = None\<rparr>] \<and>
   compactBlocks
     [\<lparr>type = ''p'', nodes = Some [], content = None\<rparr>,
      \<lparr>type = ''p'',
        nodes = Some [([''DIV'', ''BODY'', ''HTML''], Element ''IMG'' [(''src'', ''x.png'')] [])],
        content = None\<rparr>] =
     [\<lparr>type = ''p'',
        nodes = Some [([''DIV'', ''BODY'', ''HTML''], Element ''IMG'' [(''src'', ''x.png'')] [])],
        content = None\<rparr>] \<and>
   (nodes b = Some ns \<and> (anc, n) \<in> set ns \<and>
    (matchesSelector n empty_tags \<or> querySelector n empty_tags) \<longrightarrow>
      (\<exists>b'. compactBlocks (b # bs) = b' # compactBlocks bs \<and> type b' = type b)) \<and>
   (type b0 \<notin> set markdown_empty_blocks \<and> nodes b0 = Some ns0 \<and>
    (\<forall>n\<in>set ns0. \<not> meaningfulNode n) \<longrightarrow> compactBlocks (b0 # bs0) = compactBlocks bs0) \<and>
   matchesSelector (Element t a cs) empty_tags =
     (toLowerCase t \<in> {''hr'', ''br'', ''img'', ''video'', ''audio''})"
proof -
  have g1: "nodes b = Some ns \<and> (anc, n) \<in> set ns \<and>
    (matchesSelector n empty_tags \<or> querySelector n empty_tags) \<longrightarrow>
      (\<exists>b'. compactBlocks (b # bs) = b' # compactBlocks bs \<and> type b' = type b)"
    using compactBlocks_keeps_meaningful [of b ns "(anc, n)" bs]
    by (auto simp: meaningfulNode_def)
  have g2: "type b0 \<notin> set markdown_empty_blocks \<and> nodes b0 = Some ns0 \<and>
    (\<forall>n\<in>set ns0. \<not> meaningfulNode n) \<longrightarrow> compactBlocks (b0 # bs0) = compactBlocks bs0"
    using compactBlocks_drops_meaningless [of b0 ns0 bs0] by blast
  have g3: "matchesSelector (Element t a cs) empty_tags =
     (toLowerCase t \<in> {''hr'', ''br'', ''img'', ''video'', ''audio''})"
    by (simp add: tagMatches_def empty_tags_def)
  have e: "(resolveWindow optionsWindow globalWindow
     \<lparr>body = Element ''BODY'' []
        [Element ''DIV'' [] [Element ''P'' [] [], Element ''IMG'' [(''src'', ''x.png'')] []]],
      parentWindow = pw, defaultView = dv\<rparr> \<noteq> None \<longrightarrow>
    parse normalizeXML optionsWindow globalWindow
      \<lparr>body = Element ''BODY'' []
         [Element ''DIV'' [] [Element ''P'' [] [], Element ''IMG'' [(''src'', ''x.png'')] []]],
       parentWindow = pw, defaultView = dv\<rparr> =
      Inr [\<lparr>type = ''p'', nodes = None, content = Some [ImgU (Some ''x.png'')]\<rparr>] \<and>
    html2md normalizeXML optionsWindow globalWindow
      \<lparr>body = Element ''BODY'' []
         [Element ''DIV'' [] [Element ''P'' [] [], Element ''IMG'' [(''src'', ''x.png'')] []]],
       parentWindow = pw, defaultView = dv\<rparr> =
      Inr ''![](x.png)'')"
    by (auto simp: eval_defs)
  have x: "extractBlocks (Element ''BODY'' []
      [Element ''DIV'' [] [Element ''P'' [] [], Element ''IMG'' [(''src'', ''x.png'')] []]]) =
     [\<lparr>type = ''p'', nodes = Some [], content = None\<rparr>,
      \<lparr>type = ''p'',
        nodes = Some [([''DIV'', ''BODY'', ''HTML''], Element ''IMG'' [(''src'', ''x.png'')] [])],
        content = None\<rparr>]"
    by (simp add: eval_defs)
  have k: "compactBlocks
     [\<lparr>type = ''p'', nodes = Some [], content = None\<rparr>,
      \<lparr>type = ''p'',
        nodes = Some [([''DIV'', ''BODY'', ''HTML''], Element ''IMG'' [(''src'', ''x.png'')] [])],
        content = None\<rparr>] =
     [\<lparr>type = ''p'',
        nodes = Some [([''DIV'', ''BODY'', ''HTML''], Element ''IMG'' [(''src'', ''x.png'')] [])],
        content = None\<rparr>]"
    by (simp add: eval_defs)
  show ?thesis using g1 g2 g3 e x k by blast
qed

theorem empty_paragraph_and_image_witness:
  "parse (\<lambda>s. s) None None
     \<lparr>body = Element ''BODY'' []
        [Element ''DIV'' [] [Element ''P'' [] [], Element ''IMG'' [(''src'', ''x.png'')] []]],
      parentWindow = None, defaultView = Some Window\<rparr> =
     Inr [\<lparr>type = ''p'', nodes = None, content = Some [ImgU (Some ''x.png'')]\<rparr>] \<and>
   html2md (\<lambda>s. s) None None
     \<lparr>body = Element ''BODY'' []
        [Element ''DIV'' [] [Element ''P'' [] [], Element ''IMG'' [(''src'', ''x.png'')] []]],
      parentWindow = None, defaultView = Some Window\<rparr> =
     Inr ''![](x.png)'' \<and>
   matchesSelector (Element ''IMG'' [(''src'', ''x.png'')] []) empty_tags \<and>
   (\<exists>b'. compactBlocks
      [\<lparr>type = ''p'',
         nodes = Some [([''DIV'', ''BODY'', ''HTML''], Element ''IMG'' [(''src'', ''x.png'')] [])],
         content = None\<rparr>] = [b'] \<and> type b' = ''p'') \<and>
   compactBlocks [\<lparr>type = ''p'', nodes = Some [], content = None\<rparr>] = []"
  using empty_paragraph_and_image [of None None None "Some Window" "\<lambda>s. s"
      "\<lparr>type = ''p'',
         nodes = Some [([''DIV'', ''BODY'', ''HTML''], Element ''IMG'' [(''src'', ''x.png'')] [])],
         content = None\<rparr>"
      "[([''DIV'', ''BODY'', ''HTML''], Element ''IMG'' [(''src'', ''x.png'')] [])]"
      "[''DIV'', ''BODY'', ''HTML'']" "Element ''IMG'' [(''src'', ''x.png'')] []" "[]"
      "\<lparr>type = ''p'', nodes = Some [], content = None\<rparr>" "[]" "[]" "''IMG''"
      "[(''src'', ''x.png'')]" "[]"]
  by (simp add: resolveWindow_def markdown_empty_blocks_def tagMatches_def toLowerCase_def
      toLowerCase_char_def empty_tags_def)

text \<open>
  C10. In the first loop of \<open>cleanInlines\<close> a text unit that follows an \<open>img\<close> unit keeps its
  content as collapsed, leading space included; the loop writes a content other than the
  collapsed one (the leading space stripped) only when the unit before is a \<open>br\<close> or a text
  unit whose content ends in a space. So a cleaned sequence can hold a text unit that
  begins with a space right after an \<open>img\<close> unit.
\<close>

theorem img_keeps_leading_space:
  "cleanReduce [] None (pre @ ImgU s # TextU c st # post) =
     cleanReduce [] None (pre @ [ImgU s]) @
     (if collapse c = [] then [] else [TextU (collapse c) st]) @
     cleanReduce [] (Some (TextU (collapse c) st)) post \<and>
   (cleanContent prev c' \<noteq> collapse c' \<longrightarrow>
      prev = Some BrU \<or> (\<exists>pc ps. prev = Some (TextU pc ps) \<and> lastIsSpace pc)) \<and>
   cleanInlines [ImgU (Some ''x.png''), TextU '' a'' []] =
     [ImgU (Some ''x.png''), TextU '' a'' []]"
proof -
  have a: "cleanReduce [] None (pre @ ImgU s # TextU c st # post) =
     cleanReduce [] None (pre @ [ImgU s]) @
     (if collapse c = [] then [] else [TextU (collapse c) st]) @
     cleanReduce [] (Some (TextU (collapse c) st)) post"
    using cleanReduce_append_img [of None pre s "TextU c st # post"]
      cleanReduce_append_img [of None pre s "[]"]
    by (simp add: cleanReduce_text cleanContent_after_img)
  have b: "cleanInlines [ImgU (Some ''x.png''), TextU '' a'' []] =
     [ImgU (Some ''x.png''), TextU '' a'' []]"
    by code_simp
  show ?thesis using a b cleanContent_strip_only [of prev c'] by blast
qed

theorem img_keeps_leading_space_witness:
  "cleanContent (Some BrU) '' a'' = ''a'' \<and> collapse '' a'' = '' a'' \<and>
   cleanInlines [ImgU (Some ''x.png''), TextU '' a'' []] = [ImgU (Some ''x.png''), TextU '' a'' []]"
  using img_keeps_leading_space [of "[]" None "[]" "[]" "[]" "Some BrU" "'' a''"]
  by (simp add: cleanContent_def is_space_def firstIsSpace_def)

end
